theory Spec2Isabelle
  imports Main "HOL-Library.Word"
begin

unbundle bit_operations_syntax

section \<open>NimbusOS: a shallow embedding of the scheduler core\<close>

text \<open>
  The source file \<^verbatim>\<open>nimbusOS.ino\<close> holds two variants of the kernel, one after the other:
  the first (``optimised for Arduino Uno'', with \<^verbatim>\<open>addTask\<close>, \<^verbatim>\<open>tasks\<close>, \<^verbatim>\<open>taskCount\<close>) and the
  second (the unified one, with \<^verbatim>\<open>add\<close>, \<^verbatim>\<open>t\<close>, \<^verbatim>\<open>n\<close>, bit-fields, mailboxes).
  The second variant is embedded in full as far as the kernel goes; of the first
  variant, the registry, the selection loop and the bus arbitrator. Where the two
  variants use the same identifier, the one of the first variant carries the suffix \<open>1\<close>;
  a few one-letter or clashing names of the second variant carry a suffix as well
  (\<open>t_os\<close>, \<open>n_os\<close>, \<open>last_t\<close>, \<open>id_t\<close>, \<open>msg_type\<close>, \<open>msg_data\<close>, \<open>msg_size\<close>).

  The target is an 8-bit AVR: \<^verbatim>\<open>int\<close> has 16 bits, \<^verbatim>\<open>millis()\<close> returns a 32-bit unsigned
  value. Machine integers are words; the clock is a parameter of every operation that
  reads it.
\<close>

type_synonym u8 = "8 word"
type_synonym u16 = "16 word"
type_synonym u32 = "32 word"

subsection \<open>Configuration constants\<close>

definition MAX_TASKS :: nat where
  "MAX_TASKS = 6"

definition TASK_MAX_RUNTIME_MS :: u32 where
  "TASK_MAX_RUNTIME_MS = 2000"

definition PIN_SD_CS :: u8 where
  "PIN_SD_CS = 4"

definition PIN_ETH_CS :: u8 where
  "PIN_ETH_CS = 10"

text \<open>Task states of the second variant; \<^verbatim>\<open>state\<close> is a 3-bit field there.\<close>

definition T_READY :: "3 word" where
  "T_READY = 1"

definition T_RUN :: "3 word" where
  "T_RUN = 2"

definition T_WAIT :: "3 word" where
  "T_WAIT = 3"

definition T_SUSPENDED :: "3 word" where
  "T_SUSPENDED = 4"

text \<open>Task states of the first variant; \<^verbatim>\<open>state\<close> is a whole byte there.\<close>

definition TASK_READY :: u8 where
  "TASK_READY = 1"

definition TASK_RUNNING :: u8 where
  "TASK_RUNNING = 2"

definition TASK_WAITING :: u8 where
  "TASK_WAITING = 3"

definition TASK_SUSPENDED :: u8 where
  "TASK_SUSPENDED = 4"

definition PRIORITY_IDLE :: u8 where
  "PRIORITY_IDLE = 0"

definition PRIORITY_LOW :: u8 where
  "PRIORITY_LOW = 1"

definition PRIORITY_NORMAL :: u8 where
  "PRIORITY_NORMAL = 2"

definition PRIORITY_HIGH :: u8 where
  "PRIORITY_HIGH = 3"

subsection \<open>The SPI manager (bus arbitrator)\<close>

text \<open>
  \<^verbatim>\<open>digitalWrite(pin, level)\<close> is the only effect of the arbitrator. The state of the
  class is its static member \<^verbatim>\<open>dev\<close> (\<^verbatim>\<open>currentDevice\<close> in the first variant) together
  with the trace of the calls of \<^verbatim>\<open>digitalWrite\<close> made so far, oldest first. A chip-select
  line is active low: writing \<open>LOW\<close> asserts a device, writing \<open>HIGH\<close> deasserts it.
\<close>

datatype level = LOW | HIGH

record SPIMgr =
  dev :: u8
  writes :: "(u8 \<times> level) list"

definition SPIMgr_init :: SPIMgr where
  "SPIMgr_init = \<lparr>dev = 0, writes = []\<rparr>"

definition digitalWrite :: "u8 \<Rightarrow> level \<Rightarrow> SPIMgr \<Rightarrow> SPIMgr" where
  "digitalWrite pin v s = s\<lparr>writes := writes s @ [(pin, v)]\<rparr>"

text \<open>Second variant: \<^verbatim>\<open>SPIMgr::sel\<close> and \<^verbatim>\<open>SPIMgr::desel\<close>.\<close>

definition sel :: "u8 \<Rightarrow> SPIMgr \<Rightarrow> SPIMgr" where
  "sel d s =
     (if dev s \<noteq> d
      then (digitalWrite d LOW (digitalWrite (dev s) HIGH s))\<lparr>dev := d\<rparr>
      else s)"

definition desel :: "SPIMgr \<Rightarrow> SPIMgr" where
  "desel s = digitalWrite PIN_ETH_CS HIGH (digitalWrite PIN_SD_CS HIGH s)"

text \<open>
  First variant: \<^verbatim>\<open>SPIMgr::select\<close> and \<^verbatim>\<open>SPIMgr::deselect\<close>. The class is the same text
  up to the names (\<^verbatim>\<open>currentDevice\<close> for \<^verbatim>\<open>dev\<close>, \<^verbatim>\<open>SD_CS_PIN\<close> = 4, \<^verbatim>\<open>ETH_CS_PIN\<close> = 10),
  so it is embedded over the same record.
\<close>

definition select :: "u8 \<Rightarrow> SPIMgr \<Rightarrow> SPIMgr" where
  "select devicePin s =
     (if dev s \<noteq> devicePin
      then (digitalWrite devicePin LOW (digitalWrite (dev s) HIGH s))\<lparr>dev := devicePin\<rparr>
      else s)"

definition deselect :: "SPIMgr \<Rightarrow> SPIMgr" where
  "deselect s = digitalWrite PIN_ETH_CS HIGH (digitalWrite PIN_SD_CS HIGH s)"

text \<open>
  Observers of the trace: the level a pin was last driven to (\<open>None\<close> when it was never
  written), the writes a call added to the trace, and the number of asserts of a pin
  among some writes.
\<close>

definition pin_level :: "SPIMgr \<Rightarrow> u8 \<Rightarrow> level option" where
  "pin_level s pin = map_of (rev (writes s)) pin"

definition new_writes :: "SPIMgr \<Rightarrow> SPIMgr \<Rightarrow> (u8 \<times> level) list" where
  "new_writes s s' = drop (length (writes s)) (writes s')"

definition asserts_of :: "u8 \<Rightarrow> (u8 \<times> level) list \<Rightarrow> nat" where
  "asserts_of pin ws = length (filter (\<lambda>w. w = (pin, LOW)) ws)"

subsection \<open>Tasks and the kernel state, second variant\<close>

text \<open>
  The mailbox of a task (\<^verbatim>\<open>Task::message\<close>): \<^verbatim>\<open>type\<close>, \<^verbatim>\<open>data[8]\<close>, \<^verbatim>\<open>size\<close>, \<^verbatim>\<open>pending\<close>.
\<close>

record Message =
  msg_type :: u8
  msg_data :: "u8 list"
  msg_size :: u8
  pending :: bool

text \<open>
  \<^verbatim>\<open>struct Task\<close>. The entry point \<^verbatim>\<open>fn\<close> is a function pointer: it is kept as the number
  of the entry point, and the dispatcher is given the behaviour of each entry point.
  \<^verbatim>\<open>state\<close>, \<^verbatim>\<open>pri\<close> and \<^verbatim>\<open>id\<close> are bit-fields of 3, 2 and 3 bits.
\<close>

record Task =
  fn :: nat
  period :: u16
  last_t :: u16
  state :: "3 word"
  pri :: "2 word"
  id_t :: "3 word"
  sleepUntil :: u32
  startRun :: u32
  message :: Message

record NimbusOS =
  t_os :: "Task list"
  n_os :: u8
  cur :: u8
  ticks :: u32
  ctxSw :: u32
  suspendFlags :: u8
  lowPowerMode :: bool

text \<open>The constructor: the counters are 0 and \<^verbatim>\<open>memset\<close> clears the table.\<close>

definition Message_zero :: Message where
  "Message_zero = \<lparr>msg_type = 0, msg_data = replicate 8 0, msg_size = 0, pending = False\<rparr>"

definition Task_zero :: Task where
  "Task_zero = \<lparr>fn = 0, period = 0, last_t = 0, state = 0, pri = 0, id_t = 0,
     sleepUntil = 0, startRun = 0, message = Message_zero\<rparr>"

definition NimbusOS_init :: NimbusOS where
  "NimbusOS_init = \<lparr>t_os = replicate MAX_TASKS Task_zero, n_os = 0, cur = 0, ticks = 0,
     ctxSw = 0, suspendFlags = 0, lowPowerMode = False\<rparr>"

text \<open>
  \<^verbatim>\<open>memcpy(dst, src, k)\<close> on byte arrays as lists: the first \<open>k\<close> bytes of \<open>dst\<close> become the
  first \<open>k\<close> bytes of \<open>src\<close>. In C both arrays must hold \<open>k\<close> bytes; the equation is the
  code's behaviour for such arguments only.
\<close>

definition memcpy :: "u8 list \<Rightarrow> u8 list \<Rightarrow> nat \<Rightarrow> u8 list" where
  "memcpy dst src k = take k src @ drop k dst"

text \<open>
  \<^verbatim>\<open>add\<close>: returns \<open>-1\<close> when the table is full, the new id otherwise. The result is the
  pair of the returned \<^verbatim>\<open>int\<close> and the state. The parameter \<^verbatim>\<open>name\<close> is not used by the
  second variant.
\<close>

definition add :: "nat \<Rightarrow> u16 \<Rightarrow> u8 \<Rightarrow> NimbusOS \<Rightarrow> int \<times> NimbusOS" where
  "add f p pr os =
     (if MAX_TASKS \<le> unat (n_os os) then (- 1, os)
      else
        let i = unat (n_os os);
            x = t_os os ! i;
            x' = x\<lparr>fn := f, period := p, pri := ucast pr, state := T_READY,
                   id_t := ucast (n_os os), last_t := 0, sleepUntil := 0, startRun := 0,
                   message := (message x)\<lparr>pending := False\<rparr>\<rparr>
        in (int i, os\<lparr>t_os := (t_os os)[i := x'], n_os := n_os os + 1\<rparr>))"

text \<open>\<^verbatim>\<open>sleep(ms)\<close>, with the value \<^verbatim>\<open>millis()\<close> returns inside it as first argument.\<close>

definition sleep :: "u32 \<Rightarrow> u16 \<Rightarrow> NimbusOS \<Rightarrow> NimbusOS" where
  "sleep millis ms os =
     (let c = unat (cur os)
      in os\<lparr>t_os := (t_os os)[c := (t_os os ! c)\<lparr>state := T_WAIT,
                                                  sleepUntil := millis + ucast ms\<rparr>]\<rparr>)"

definition shouldYield :: "u32 \<Rightarrow> NimbusOS \<Rightarrow> bool" where
  "shouldYield millis os \<longleftrightarrow> TASK_MAX_RUNTIME_MS < millis - startRun (t_os os ! unat (cur os))"

text \<open>
  \<^verbatim>\<open>suspendTask\<close> and \<^verbatim>\<open>resumeTask\<close> (\<^verbatim>\<open>ENABLE_SUSPEND_RESUME\<close> is defined). The mask
  \<^verbatim>\<open>1 << id\<close> is computed in \<^verbatim>\<open>int\<close> and the result stored in a byte.
\<close>

definition suspendTask :: "u8 \<Rightarrow> NimbusOS \<Rightarrow> int \<times> NimbusOS" where
  "suspendTask k os =
     (if k < n_os os then
        let i = unat k;
            os1 = os\<lparr>suspendFlags := suspendFlags os OR push_bit i 1\<rparr>;
            os2 = (if state (t_os os1 ! i) \<noteq> T_WAIT
                   then os1\<lparr>t_os := (t_os os1)[i := (t_os os1 ! i)\<lparr>state := T_SUSPENDED\<rparr>]\<rparr>
                   else os1)
        in (0, os2)
      else (- 1, os))"

definition resumeTask :: "u8 \<Rightarrow> NimbusOS \<Rightarrow> int \<times> NimbusOS" where
  "resumeTask k os =
     (if k < n_os os then
        let i = unat k;
            os1 = os\<lparr>suspendFlags := suspendFlags os AND NOT (push_bit i 1)\<rparr>;
            os2 = (if state (t_os os1 ! i) = T_SUSPENDED
                   then os1\<lparr>t_os := (t_os os1)[i := (t_os os1 ! i)\<lparr>state := T_READY\<rparr>]\<rparr>
                   else os1)
        in (0, os2)
      else (- 1, os))"

text \<open>
  \<^verbatim>\<open>sendMessage(taskId, msgType, data, size)\<close> (\<^verbatim>\<open>ENABLE_MESSAGING\<close> is defined): \<open>-1\<close> for
  invalid parameters, \<open>-2\<close> for a full mailbox, \<open>0\<close> for success.
\<close>

definition sendMessage :: "u8 \<Rightarrow> u8 \<Rightarrow> u8 list \<Rightarrow> u8 \<Rightarrow> NimbusOS \<Rightarrow> int \<times> NimbusOS" where
  "sendMessage taskId msgType data sz os =
     (if n_os os \<le> taskId \<or> 8 < sz then (- 1, os)
      else if pending (message (t_os os ! unat taskId)) then (- 2, os)
      else
        let i = unat taskId;
            x = t_os os ! i;
            m = \<lparr>msg_type = msgType, msg_data = memcpy (msg_data (message x)) data (unat sz),
                 msg_size = sz, pending = True\<rparr>
        in (0, os\<lparr>t_os := (t_os os)[i := x\<lparr>message := m\<rparr>]\<rparr>))"

text \<open>
  \<^verbatim>\<open>receiveMessage(msgType, data, maxSize)\<close>: the two out-parameters are passed in with
  their contents before the call and returned with their contents after it, after the
  returned \<^verbatim>\<open>int\<close> and before the state.
\<close>

definition receiveMessage ::
  "u8 \<Rightarrow> u8 list \<Rightarrow> u8 \<Rightarrow> NimbusOS \<Rightarrow> int \<times> u8 \<times> u8 list \<times> NimbusOS" where
  "receiveMessage msgType data maxSize os =
     (let c = unat (cur os);
          x = t_os os ! c;
          m = message x
      in if \<not> pending m then (0, msgType, data, os)
         else
           let copySize = min maxSize (msg_size m)
           in (uint copySize, msg_type m, memcpy data (msg_data m) (unat copySize),
               os\<lparr>t_os := (t_os os)[c := x\<lparr>message := m\<lparr>pending := False\<rparr>\<rparr>]\<rparr>))"

text \<open>
  The scheduler loop of \<^verbatim>\<open>run\<close>. \<open>scan_step now i\<close> is the body of the \<^verbatim>\<open>for\<close> loop for
  the index \<open>i\<close>, on the triple of the kernel state and the locals \<^verbatim>\<open>best\<close> and \<^verbatim>\<open>maxPri\<close>;
  \<open>scan\<close> runs it for \<open>i = 0, ..., n - 1\<close>. The operands of \<^verbatim>\<open>now - t[i].last\<close> and of the
  comparison with \<^verbatim>\<open>t[i].period\<close> are converted to 32 bits, as C does.
\<close>

definition scan_step :: "u32 \<Rightarrow> nat \<Rightarrow> NimbusOS \<times> int \<times> u8 \<Rightarrow> NimbusOS \<times> int \<times> u8" where
  "scan_step now i s =
     (case s of (os, best, maxPri) \<Rightarrow>
        if suspendFlags os AND push_bit i 1 \<noteq> 0 then (os, best, maxPri)
        else
          let os1 = (if state (t_os os ! i) = T_WAIT \<and> sleepUntil (t_os os ! i) \<le> now
                     then os\<lparr>t_os := (t_os os)[i := (t_os os ! i)\<lparr>state := T_READY,
                                                                 sleepUntil := 0\<rparr>]\<rparr>
                     else os);
              x = t_os os1 ! i
          in if state x = T_READY \<and> ucast (period x) \<le> now - ucast (last_t x)
             then (if maxPri \<le> ucast (pri x) then (os1, int i, ucast (pri x))
                   else (os1, best, maxPri))
             else (os1, best, maxPri))"

definition scan :: "u32 \<Rightarrow> NimbusOS \<Rightarrow> NimbusOS \<times> int \<times> u8" where
  "scan now os = fold (scan_step now) [0..<unat (n_os os)] (os, - 1, 0)"

text \<open>
  One iteration of the \<^verbatim>\<open>while (1)\<close> loop of \<^verbatim>\<open>run\<close>: \<open>now\<close> is what \<^verbatim>\<open>millis()\<close> returned at
  its start, \<open>entry f\<close> is what the call of the entry point number \<open>f\<close> does to the kernel
  state. The watchdog reset and the idle delay change no kernel state.
\<close>

definition run_iter :: "(nat \<Rightarrow> NimbusOS \<Rightarrow> NimbusOS) \<Rightarrow> u32 \<Rightarrow> NimbusOS \<Rightarrow> NimbusOS" where
  "run_iter entry now os =
     (case scan now os of (os1, best, maxPri) \<Rightarrow>
        if 0 \<le> best then
          let os2 = os1\<lparr>cur := word_of_int best\<rparr>;
              c = unat (cur os2);
              os3 = os2\<lparr>t_os := (t_os os2)[c := (t_os os2 ! c)\<lparr>state := T_RUN,
                                                last_t := ucast now, startRun := now\<rparr>]\<rparr>;
              os4 = entry (fn (t_os os3 ! c)) os3;
              c4 = unat (cur os4);
              os5 = (if state (t_os os4 ! c4) = T_RUN
                     then os4\<lparr>t_os := (t_os os4)[c4 := (t_os os4 ! c4)\<lparr>state := T_READY\<rparr>]\<rparr>
                     else os4)
          in os5\<lparr>ctxSw := ctxSw os5 + 1\<rparr>
        else os1)"


subsection \<open>Tasks and the kernel state, first variant\<close>

text \<open>
  \<^verbatim>\<open>struct Task\<close> and \<^verbatim>\<open>class NimbusOS\<close> of the first variant: no bit-fields, no mailbox,
  no \<^verbatim>\<open>id\<close> and no \<^verbatim>\<open>startRun\<close>; the name of the task is stored.
\<close>

record Task1 =
  function1 :: nat
  period1 :: u16
  lastRun :: u16
  state1 :: u8
  priority :: u8
  wakeTime :: u32
  name1 :: string

record NimbusOS1 =
  tasks :: "Task1 list"
  taskCount :: u8
  currentTask :: u8
  ticks1 :: u32
  contextSwitches :: u16
  suspendFlags1 :: u8
  lowPowerMode1 :: bool

definition Task1_zero :: Task1 where
  "Task1_zero = \<lparr>function1 = 0, period1 = 0, lastRun = 0, state1 = 0, priority = 0,
     wakeTime = 0, name1 = []\<rparr>"

definition NimbusOS1_init :: NimbusOS1 where
  "NimbusOS1_init = \<lparr>tasks = replicate MAX_TASKS Task1_zero, taskCount = 0, currentTask = 0,
     ticks1 = 0, contextSwitches = 0, suspendFlags1 = 0, lowPowerMode1 = False\<rparr>"

definition addTask :: "nat \<Rightarrow> u16 \<Rightarrow> u8 \<Rightarrow> string \<Rightarrow> NimbusOS1 \<Rightarrow> int \<times> NimbusOS1" where
  "addTask f p pr nm os =
     (if MAX_TASKS \<le> unat (taskCount os) then (- 1, os)
      else
        let i = unat (taskCount os);
            x' = (tasks os ! i)\<lparr>function1 := f, period1 := p, priority := pr,
                   state1 := TASK_READY, lastRun := 0, wakeTime := 0, name1 := nm\<rparr>
        in (int i, os\<lparr>tasks := (tasks os)[i := x'], taskCount := taskCount os + 1\<rparr>))"

text \<open>The \<^verbatim>\<open>for\<close> loop of \<^verbatim>\<open>run\<close> in the first variant, on the locals \<^verbatim>\<open>bestTask\<close> and
  \<^verbatim>\<open>highestPriority\<close>.\<close>

definition scan_step1 :: "u32 \<Rightarrow> nat \<Rightarrow> NimbusOS1 \<times> int \<times> u8 \<Rightarrow> NimbusOS1 \<times> int \<times> u8" where
  "scan_step1 now i s =
     (case s of (os, bestTask, highestPriority) \<Rightarrow>
        if suspendFlags1 os AND push_bit i 1 \<noteq> 0 then (os, bestTask, highestPriority)
        else
          let os1 = (if state1 (tasks os ! i) = TASK_WAITING \<and> wakeTime (tasks os ! i) \<le> now
                     then os\<lparr>tasks := (tasks os)[i := (tasks os ! i)\<lparr>state1 := TASK_READY,
                                                                   wakeTime := 0\<rparr>]\<rparr>
                     else os);
              x = tasks os1 ! i
          in if state1 x = TASK_READY \<and> ucast (period1 x) \<le> now - ucast (lastRun x)
             then (if highestPriority < priority x then (os1, int i, priority x)
                   else (os1, bestTask, highestPriority))
             else (os1, bestTask, highestPriority))"

definition scan1 :: "u32 \<Rightarrow> NimbusOS1 \<Rightarrow> NimbusOS1 \<times> int \<times> u8" where
  "scan1 now os = fold (scan_step1 now) [0..<unat (taskCount os)] (os, - 1, 0)"

subsection \<open>Sequences of calls\<close>

text \<open>
  The registrations made by \<^verbatim>\<open>setup()\<close>, one after the other, each with its arguments:
  the returned values in call order, and the state after the last call.
\<close>

fun add_all :: "(nat \<times> u16 \<times> u8) list \<Rightarrow> NimbusOS \<Rightarrow> int list \<times> NimbusOS" where
  "add_all [] os = ([], os)"
| "add_all ((f, p, pr) # rs) os =
     (case add f p pr os of (r, os') \<Rightarrow>
        (case add_all rs os' of (res, os'') \<Rightarrow> (r # res, os'')))"

fun addTask_all :: "(nat \<times> u16 \<times> u8 \<times> string) list \<Rightarrow> NimbusOS1 \<Rightarrow> int list \<times> NimbusOS1" where
  "addTask_all [] os = ([], os)"
| "addTask_all ((f, p, pr, nm) # rs) os =
     (case addTask f p pr nm os of (r, os') \<Rightarrow>
        (case addTask_all rs os' of (res, os'') \<Rightarrow> (r # res, os'')))"

subsection \<open>Notions used to state the scheduling properties\<close>

text \<open>
  A task is \<^emph>\<open>suspended\<close> when its bit of the suspend mask is set (the test the loop
  makes), \<^emph>\<open>due\<close> when the period test of the loop holds for it, and \<^emph>\<open>eligible\<close> when it
  is registered, not suspended, \<open>READY\<close> and due. The loop wakes tasks while it selects,
  so the eligible tasks of an iteration are those eligible on the table the loop leaves.
  \<open>wake\<close> is the sleep-expiry transition of the loop on one descriptor. \<open>same_tasks\<close>
  relates a state of the first variant to a state of the second that holds the same
  scheduling data.
\<close>

definition suspended :: "u8 \<Rightarrow> nat \<Rightarrow> bool" where
  "suspended flags i \<longleftrightarrow> flags AND push_bit i 1 \<noteq> 0"

definition wake :: "u32 \<Rightarrow> Task \<Rightarrow> Task" where
  "wake now x =
     (if state x = T_WAIT \<and> sleepUntil x \<le> now then x\<lparr>state := T_READY, sleepUntil := 0\<rparr> else x)"

definition due :: "u32 \<Rightarrow> Task \<Rightarrow> bool" where
  "due now x \<longleftrightarrow> ucast (period x) \<le> now - ucast (last_t x)"

definition eligible :: "u32 \<Rightarrow> NimbusOS \<Rightarrow> nat \<Rightarrow> bool" where
  "eligible now os i \<longleftrightarrow>
     i < unat (n_os os) \<and> \<not> suspended (suspendFlags os) i
     \<and> state (t_os os ! i) = T_READY \<and> due now (t_os os ! i)"

text \<open>
  Task \<open>i\<close> is registered and waiting with wake-time \<open>w\<close>: the condition \<^verbatim>\<open>sleep\<close> sets
  up for the calling task.
\<close>

definition sleeping :: "nat \<Rightarrow> u32 \<Rightarrow> NimbusOS \<Rightarrow> bool" where
  "sleeping i w s \<longleftrightarrow>
     i < unat (n_os s) \<and> unat (n_os s) \<le> length (t_os s)
     \<and> state (t_os s ! i) = T_WAIT \<and> sleepUntil (t_os s ! i) = w"

definition wake1 :: "u32 \<Rightarrow> Task1 \<Rightarrow> Task1" where
  "wake1 now x =
     (if state1 x = TASK_WAITING \<and> wakeTime x \<le> now
      then x\<lparr>state1 := TASK_READY, wakeTime := 0\<rparr> else x)"

definition due1 :: "u32 \<Rightarrow> Task1 \<Rightarrow> bool" where
  "due1 now x \<longleftrightarrow> ucast (period1 x) \<le> now - ucast (lastRun x)"

definition eligible1 :: "u32 \<Rightarrow> NimbusOS1 \<Rightarrow> nat \<Rightarrow> bool" where
  "eligible1 now os i \<longleftrightarrow>
     i < unat (taskCount os) \<and> \<not> suspended (suspendFlags1 os) i
     \<and> state1 (tasks os ! i) = TASK_READY \<and> due1 now (tasks os ! i)"

definition same_task :: "Task1 \<Rightarrow> Task \<Rightarrow> bool" where
  "same_task x y \<longleftrightarrow>
     period1 x = period y \<and> lastRun x = last_t y \<and> state1 x = ucast (state y)
     \<and> priority x = ucast (pri y) \<and> wakeTime x = sleepUntil y"

definition same_tasks :: "NimbusOS1 \<Rightarrow> NimbusOS \<Rightarrow> bool" where
  "same_tasks a b \<longleftrightarrow>
     taskCount a = n_os b \<and> suspendFlags1 a = suspendFlags b
     \<and> unat (taskCount a) \<le> length (tasks a) \<and> unat (n_os b) \<le> length (t_os b)
     \<and> list_all2 same_task (take (unat (taskCount a)) (tasks a)) (take (unat (n_os b)) (t_os b))"

text \<open>
  The loop, taken apart for the proofs: what it does to the table (\<open>wake_at\<close> on each
  index in turn, \<open>woken\<close>), and what it selects among the candidates, a candidate being
  the priority of a task that passes the tests of the loop body. \<open>pick_last\<close> is the
  update of \<^verbatim>\<open>best\<close> and \<^verbatim>\<open>maxPri\<close> of the second variant (\<^verbatim>\<open>>=\<close>), \<open>pick_first\<close> the one
  of the first variant (\<^verbatim>\<open>>\<close>). The lemmas \<open>scan_fold\<close> and \<open>scan1_fold\<close> show that the
  loops are these.
\<close>

definition candidate :: "u32 \<Rightarrow> NimbusOS \<Rightarrow> nat \<Rightarrow> u8 option" where
  "candidate now os i =
     (if \<not> suspended (suspendFlags os) i \<and> state (wake now (t_os os ! i)) = T_READY
         \<and> due now (t_os os ! i)
      then Some (ucast (pri (t_os os ! i))) else None)"

definition candidate1 :: "u32 \<Rightarrow> NimbusOS1 \<Rightarrow> nat \<Rightarrow> u8 option" where
  "candidate1 now os i =
     (if \<not> suspended (suspendFlags1 os) i \<and> state1 (wake1 now (tasks os ! i)) = TASK_READY
         \<and> due1 now (tasks os ! i)
      then Some (priority (tasks os ! i)) else None)"

definition wake_at :: "u32 \<Rightarrow> nat \<Rightarrow> NimbusOS \<Rightarrow> NimbusOS" where
  "wake_at now i os =
     (if suspended (suspendFlags os) i then os
      else os\<lparr>t_os := (t_os os)[i := wake now (t_os os ! i)]\<rparr>)"

definition wake_at1 :: "u32 \<Rightarrow> nat \<Rightarrow> NimbusOS1 \<Rightarrow> NimbusOS1" where
  "wake_at1 now i os =
     (if suspended (suspendFlags1 os) i then os
      else os\<lparr>tasks := (tasks os)[i := wake1 now (tasks os ! i)]\<rparr>)"

definition woken :: "u32 \<Rightarrow> nat \<Rightarrow> NimbusOS \<Rightarrow> NimbusOS" where
  "woken now k os = fold (wake_at now) [0..<k] os"

definition woken1 :: "u32 \<Rightarrow> nat \<Rightarrow> NimbusOS1 \<Rightarrow> NimbusOS1" where
  "woken1 now k os = fold (wake_at1 now) [0..<k] os"

definition pick_last :: "(nat \<Rightarrow> u8 option) \<Rightarrow> nat \<Rightarrow> int \<times> u8 \<Rightarrow> int \<times> u8" where
  "pick_last c i s =
     (case s of (best, maxPri) \<Rightarrow>
        (case c i of None \<Rightarrow> (best, maxPri)
         | Some p \<Rightarrow> if maxPri \<le> p then (int i, p) else (best, maxPri)))"

definition pick_first :: "(nat \<Rightarrow> u8 option) \<Rightarrow> nat \<Rightarrow> int \<times> u8 \<Rightarrow> int \<times> u8" where
  "pick_first c i s =
     (case s of (best, maxPri) \<Rightarrow>
        (case c i of None \<Rightarrow> (best, maxPri)
         | Some p \<Rightarrow> if maxPri < p then (int i, p) else (best, maxPri)))"

subsection \<open>Example configurations\<close>

text \<open>
  Three tasks registered in this order, all with period 0: two of priority
  \<open>PRIORITY_NORMAL\<close> and one of priority \<open>PRIORITY_LOW\<close>; once for each variant.
\<close>

definition tied_tasks :: NimbusOS where
  "tied_tasks = snd (add_all [(0, 0, 2), (1, 0, 2), (2, 0, 1)] NimbusOS_init)"

definition tied_tasks1 :: NimbusOS1 where
  "tied_tasks1 =
     snd (addTask_all [(0, 0, 2, ''a''), (1, 0, 2, ''b''), (2, 0, 1, ''c'')] NimbusOS1_init)"

text \<open>The three tasks of \<open>tied_tasks\<close> after a message of three bytes was sent to task 0.\<close>

definition mailbox_demo :: NimbusOS where
  "mailbox_demo = snd (sendMessage 0 7 [1, 2, 3] 3 tied_tasks)"

text \<open>One registered task of priority \<open>PRIORITY_NORMAL\<close> with the given period.\<close>

definition one_task :: "u16 \<Rightarrow> NimbusOS" where
  "one_task p = snd (add 0 p 2 NimbusOS_init)"

text \<open>The three tasks of \<open>tied_tasks\<close> after task 0 called \<^verbatim>\<open>sleep(100)\<close> at time 1000.\<close>

definition waiting_demo :: NimbusOS where
  "waiting_demo = sleep 1000 100 tied_tasks"

section \<open>Properties\<close>

subsection \<open>The SPI manager\<close>

lemma select_eq_sel: "select = sel"
  by (intro ext) (simp add: select_def sel_def)

lemma deselect_eq_desel: "deselect = desel"
  by (intro ext) (simp add: deselect_def desel_def)

lemma dev_desel [simp]: "dev (desel s) = dev s"
  by (simp add: desel_def digitalWrite_def)

lemma writes_desel: "writes (desel s) = writes s @ [(PIN_SD_CS, HIGH), (PIN_ETH_CS, HIGH)]"
  by (simp add: desel_def digitalWrite_def)

lemma sel_same: "dev s = d \<Longrightarrow> sel d s = s"
  by (simp add: sel_def)

lemma pin_level_desel:
  "pin_level (desel s) PIN_SD_CS = Some HIGH \<and> pin_level (desel s) PIN_ETH_CS = Some HIGH"
  by (simp add: pin_level_def writes_desel PIN_SD_CS_def PIN_ETH_CS_def)

text \<open>
  C10. \<^verbatim>\<open>desel()\<close> drives both chip-select lines high and leaves the recorded device as
  it was. So when \<open>d\<close> is the recorded device, \<^verbatim>\<open>desel(); sel(d)\<close> ends in the very state
  \<^verbatim>\<open>desel()\<close> left: \<^verbatim>\<open>sel(d)\<close> writes no pin at all, the record still says \<open>d\<close>, and both
  lines stay deasserted. The same holds for \<^verbatim>\<open>deselect\<close> and \<^verbatim>\<open>select\<close> of the first variant.
\<close>

theorem desel_keeps_stale_device:
  assumes "dev s = d"
  shows "dev (desel s) = d
    \<and> sel d (desel s) = desel s
    \<and> new_writes (desel s) (sel d (desel s)) = []
    \<and> asserts_of d (new_writes s (sel d (desel s))) = 0
    \<and> pin_level (sel d (desel s)) PIN_SD_CS = Some HIGH
    \<and> pin_level (sel d (desel s)) PIN_ETH_CS = Some HIGH
    \<and> dev (deselect s) = d
    \<and> select d (deselect s) = deselect s"
proof -
  have 1: "dev (desel s) = d"
    using assms by simp
  have 2: "sel d (desel s) = desel s"
    using 1 by (rule sel_same)
  have 3: "new_writes (desel s) (sel d (desel s)) = []"
    by (simp add: 2 new_writes_def)
  have 4: "asserts_of d (new_writes s (sel d (desel s))) = 0"
    by (simp add: 2 new_writes_def writes_desel asserts_of_def)
  have 5: "pin_level (sel d (desel s)) PIN_SD_CS = Some HIGH"
    by (simp add: 2 pin_level_desel)
  have 6: "pin_level (sel d (desel s)) PIN_ETH_CS = Some HIGH"
    by (simp add: 2 pin_level_desel)
  have 7: "dev (deselect s) = d"
    using assms by (simp add: deselect_eq_desel)
  have 8: "select d (deselect s) = deselect s"
    by (simp add: select_eq_sel deselect_eq_desel 2)
  from 1 2 3 4 5 6 7 8 show ?thesis
    by blast
qed

theorem desel_keeps_stale_device_witness:
  "dev (sel PIN_SD_CS SPIMgr_init) = PIN_SD_CS
   \<and> sel PIN_SD_CS (desel (sel PIN_SD_CS SPIMgr_init)) = desel (sel PIN_SD_CS SPIMgr_init)
   \<and> pin_level (sel PIN_SD_CS (desel (sel PIN_SD_CS SPIMgr_init))) PIN_SD_CS = Some HIGH
   \<and> writes (sel PIN_SD_CS (desel (sel PIN_SD_CS SPIMgr_init)))
       = [(0, HIGH), (4, LOW), (4, HIGH), (10, HIGH)]"
proof -
  have h: "dev (sel PIN_SD_CS SPIMgr_init) = PIN_SD_CS"
    by (simp add: sel_def SPIMgr_init_def PIN_SD_CS_def digitalWrite_def)
  have w: "writes (desel (sel PIN_SD_CS SPIMgr_init)) = [(0, HIGH), (4, LOW), (4, HIGH), (10, HIGH)]"
    by (simp add: writes_desel sel_def SPIMgr_init_def PIN_SD_CS_def PIN_ETH_CS_def digitalWrite_def)
  from desel_keeps_stale_device [OF h]
  have a: "sel PIN_SD_CS (desel (sel PIN_SD_CS SPIMgr_init)) = desel (sel PIN_SD_CS SPIMgr_init)"
    and b: "pin_level (sel PIN_SD_CS (desel (sel PIN_SD_CS SPIMgr_init))) PIN_SD_CS = Some HIGH"
    by blast+
  from w a have c: "writes (sel PIN_SD_CS (desel (sel PIN_SD_CS SPIMgr_init)))
       = [(0, HIGH), (4, LOW), (4, HIGH), (10, HIGH)]"
    by (simp only:)
  from h a b c show ?thesis
    by blast
qed

lemma sel_other:
  "dev s \<noteq> d \<Longrightarrow> sel d s = \<lparr>dev = d, writes = writes s @ [(dev s, HIGH), (d, LOW)]\<rparr>"
  by (simp add: sel_def digitalWrite_def)

lemma sel_idem: "sel d (sel d s) = sel d s"
  by (simp add: sel_def digitalWrite_def)

lemma sel_ABA_writes:
  assumes "a \<noteq> b"
  shows "new_writes s (sel a (sel b (sel a s))) =
     (if dev s = a then [(a, HIGH), (b, LOW), (b, HIGH), (a, LOW)]
      else [(dev s, HIGH), (a, LOW), (a, HIGH), (b, LOW), (b, HIGH), (a, LOW)])"
  using assms by (simp add: sel_def digitalWrite_def new_writes_def)

text \<open>
  C9. A call \<^verbatim>\<open>sel(d)\<close> with \<open>d\<close> different from the recorded device writes \<open>HIGH\<close> to the
  recorded device and then \<open>LOW\<close> to \<open>d\<close>, and records \<open>d\<close>; a call with the recorded device
  writes nothing, so \<^verbatim>\<open>sel(b); sel(b)\<close> adds nothing to what \<^verbatim>\<open>sel(b)\<close> did, and nothing at
  all when \<open>b\<close> is already selected. For \<open>a \<noteq> b\<close> and an arbitrator in which \<open>a\<close> is not yet
  the recorded device, \<^verbatim>\<open>sel(a); sel(b); sel(a)\<close> asserts \<open>a\<close> exactly twice: the initial
  assert and the reassert after \<open>b\<close>, which is not suppressed. When the sequence is issued
  once \<open>a\<close> has been selected, its first call is coalesced and the reassert after \<open>b\<close> is
  the one assert it adds, so the asserts of \<open>a\<close> are again exactly two with the initial
  one. Likewise for \<^verbatim>\<open>select\<close>.
\<close>

theorem sel_sequence_asserts:
  assumes "a \<noteq> b"
  shows "(dev s \<noteq> a \<longrightarrow>
            asserts_of a (new_writes s (sel a (sel b (sel a s)))) = 2
          \<and> asserts_of a (new_writes s (select a (select b (select a s)))) = 2
          \<and> new_writes s (sel a (sel b (sel a s)))
              = [(dev s, HIGH), (a, LOW), (a, HIGH), (b, LOW), (b, HIGH), (a, LOW)])
    \<and> (dev s = a \<longrightarrow> asserts_of a (new_writes s (sel a (sel b (sel a s)))) = 1)
    \<and> (dev s \<noteq> a \<longrightarrow>
          asserts_of a (new_writes (sel a s) (sel a (sel b (sel a (sel a s))))) = 1
        \<and> asserts_of a (new_writes s (sel a (sel b (sel a (sel a s))))) = 2)
    \<and> new_writes (sel b s) (sel b (sel b s)) = []
    \<and> (dev s = b \<longrightarrow> new_writes s (sel b (sel b s)) = [])
    \<and> (\<forall>d. dev s \<noteq> d \<longrightarrow>
          new_writes s (sel d s) = [(dev s, HIGH), (d, LOW)] \<and> dev (sel d s) = d)"
proof -
  have two: "asserts_of a (new_writes s (sel a (sel b (sel a s)))) = 2" if "dev s \<noteq> a"
    using that assms by (simp add: sel_ABA_writes asserts_of_def)
  have trace: "new_writes s (sel a (sel b (sel a s)))
      = [(dev s, HIGH), (a, LOW), (a, HIGH), (b, LOW), (b, HIGH), (a, LOW)]" if "dev s \<noteq> a"
    using that assms by (simp add: sel_ABA_writes)
  have one: "asserts_of a (new_writes s (sel a (sel b (sel a s)))) = 1" if "dev s = a"
    using that assms by (simp add: sel_ABA_writes asserts_of_def)
  have pre: "asserts_of a (new_writes (sel a s) (sel a (sel b (sel a (sel a s))))) = 1
        \<and> asserts_of a (new_writes s (sel a (sel b (sel a (sel a s))))) = 2" if "dev s \<noteq> a"
    using that assms by (simp add: sel_def digitalWrite_def asserts_of_def new_writes_def)
  have rep: "new_writes (sel b s) (sel b (sel b s)) = []"
    by (simp add: sel_idem new_writes_def)
  have rep': "new_writes s (sel b (sel b s)) = []" if "dev s = b"
    using that by (simp add: sel_same new_writes_def)
  have step: "new_writes s (sel d s) = [(dev s, HIGH), (d, LOW)] \<and> dev (sel d s) = d"
    if "dev s \<noteq> d" for d
    using that by (simp add: sel_other new_writes_def)
  from two trace one pre rep rep' step show ?thesis
    by (simp add: select_eq_sel)
qed

theorem sel_sequence_asserts_witness:
  "PIN_SD_CS \<noteq> PIN_ETH_CS \<and> dev SPIMgr_init \<noteq> PIN_SD_CS
   \<and> asserts_of PIN_SD_CS
       (new_writes SPIMgr_init (sel PIN_SD_CS (sel PIN_ETH_CS (sel PIN_SD_CS SPIMgr_init)))) = 2
   \<and> new_writes SPIMgr_init (sel PIN_SD_CS (sel PIN_ETH_CS (sel PIN_SD_CS SPIMgr_init)))
       = [(0, HIGH), (PIN_SD_CS, LOW), (PIN_SD_CS, HIGH), (PIN_ETH_CS, LOW),
          (PIN_ETH_CS, HIGH), (PIN_SD_CS, LOW)]
   \<and> asserts_of PIN_SD_CS
       (new_writes SPIMgr_init
          (sel PIN_SD_CS (sel PIN_ETH_CS (sel PIN_SD_CS (sel PIN_SD_CS SPIMgr_init))))) = 2
   \<and> new_writes (sel PIN_ETH_CS SPIMgr_init) (sel PIN_ETH_CS (sel PIN_ETH_CS SPIMgr_init)) = []
   \<and> new_writes SPIMgr_init (sel PIN_ETH_CS SPIMgr_init) = [(0, HIGH), (PIN_ETH_CS, LOW)]"
proof -
  have h: "PIN_SD_CS \<noteq> PIN_ETH_CS"
    by (simp add: PIN_SD_CS_def PIN_ETH_CS_def)
  have d: "dev SPIMgr_init \<noteq> PIN_SD_CS" "dev SPIMgr_init \<noteq> PIN_ETH_CS" "dev SPIMgr_init = 0"
    by (simp_all add: SPIMgr_init_def PIN_SD_CS_def PIN_ETH_CS_def)
  note T = sel_sequence_asserts [OF h, of SPIMgr_init]
  from T d(1) have 1: "asserts_of PIN_SD_CS
       (new_writes SPIMgr_init (sel PIN_SD_CS (sel PIN_ETH_CS (sel PIN_SD_CS SPIMgr_init)))) = 2"
    and 2: "new_writes SPIMgr_init (sel PIN_SD_CS (sel PIN_ETH_CS (sel PIN_SD_CS SPIMgr_init)))
       = [(dev SPIMgr_init, HIGH), (PIN_SD_CS, LOW), (PIN_SD_CS, HIGH), (PIN_ETH_CS, LOW),
          (PIN_ETH_CS, HIGH), (PIN_SD_CS, LOW)]"
    and 3: "asserts_of PIN_SD_CS
       (new_writes SPIMgr_init
          (sel PIN_SD_CS (sel PIN_ETH_CS (sel PIN_SD_CS (sel PIN_SD_CS SPIMgr_init))))) = 2"
    by blast+
  from T have 4: "new_writes (sel PIN_ETH_CS SPIMgr_init)
       (sel PIN_ETH_CS (sel PIN_ETH_CS SPIMgr_init)) = []"
    by blast
  from T d(2) have 5: "new_writes SPIMgr_init (sel PIN_ETH_CS SPIMgr_init)
       = [(dev SPIMgr_init, HIGH), (PIN_ETH_CS, LOW)]"
    by blast
  from h d(1) 1 2 [unfolded d(3)] 3 4 5 [unfolded d(3)] show ?thesis
    by blast
qed

subsection \<open>Registration\<close>

lemma unat_count_Suc: "unat (w :: u8) < 6 \<Longrightarrow> unat (w + 1) = Suc (unat w)"
  by (simp add: unat_word_ariths)

lemma add_full: "MAX_TASKS \<le> unat (n_os os) \<Longrightarrow> add f p pr os = (- 1, os)"
  by (simp add: add_def)

lemma add_free:
  assumes "unat (n_os os) < MAX_TASKS"
  shows "fst (add f p pr os) = int (unat (n_os os))"
    and "unat (n_os (snd (add f p pr os))) = Suc (unat (n_os os))"
  using assms by (simp_all add: add_def Let_def MAX_TASKS_def unat_count_Suc)

lemma add_all_Cons:
  "add_all ((f, p, pr) # rs) os =
     (fst (add f p pr os) # fst (add_all rs (snd (add f p pr os))),
      snd (add_all rs (snd (add f p pr os))))"
  by (simp split: prod.splits)

declare add_all.simps(2) [simp del]

lemma add_all_from:
  "unat (n_os os) = k \<Longrightarrow> k \<le> MAX_TASKS \<Longrightarrow>
   fst (add_all rs os) =
     map int [k..<min (k + length rs) MAX_TASKS] @ replicate (length rs - (MAX_TASKS - k)) (- 1)
   \<and> snd (add_all rs os) = snd (add_all (take (MAX_TASKS - k) rs) os)
   \<and> unat (n_os (snd (add_all rs os))) = min (k + length rs) MAX_TASKS"
proof (induction rs arbitrary: os k)
  case Nil
  then show ?case by simp
next
  case (Cons r rs)
  obtain f p pr where r: "r = (f, p, pr)"
    by (cases r) auto
  show ?case
  proof (cases "k < MAX_TASKS")
    case True
    let ?os' = "snd (add f p pr os)"
    have n': "unat (n_os ?os') = Suc k" and res: "fst (add f p pr os) = int k"
      using add_free [of os f p pr] True Cons.prems by simp_all
    have le: "Suc k \<le> MAX_TASKS"
      using True by simp
    note IH = Cons.IH [OF n' le]
    have l1: "fst (add_all (r # rs) os) = int k # fst (add_all rs ?os')"
      and l2: "snd (add_all (r # rs) os) = snd (add_all rs ?os')"
      using res by (simp_all add: r add_all_Cons)
    have upt: "[k..<min (k + length (r # rs)) MAX_TASKS]
        = k # [Suc k..<min (Suc k + length rs) MAX_TASKS]"
      using True by (simp add: upt_conv_Cons)
    have rp: "length (r # rs) - (MAX_TASKS - k) = length rs - (MAX_TASKS - Suc k)"
      using True by simp
    have r1: "map int [k..<min (k + length (r # rs)) MAX_TASKS]
          @ replicate (length (r # rs) - (MAX_TASKS - k)) (- 1)
        = int k # (map int [Suc k..<min (Suc k + length rs) MAX_TASKS]
          @ replicate (length rs - (MAX_TASKS - Suc k)) (- 1))"
      unfolding upt rp by simp
    have tk: "take (MAX_TASKS - k) (r # rs) = r # take (MAX_TASKS - Suc k) rs"
      using True by (simp add: take_Cons')
    have r2: "snd (add_all (take (MAX_TASKS - k) (r # rs)) os)
        = snd (add_all (take (MAX_TASKS - Suc k) rs) ?os')"
      unfolding tk by (simp add: r add_all_Cons)
    have r3: "min (k + length (r # rs)) MAX_TASKS = min (Suc k + length rs) MAX_TASKS"
      by simp
    from IH have i1: "fst (add_all rs ?os') =
          map int [Suc k..<min (Suc k + length rs) MAX_TASKS]
          @ replicate (length rs - (MAX_TASKS - Suc k)) (- 1)"
      and i2: "snd (add_all rs ?os') = snd (add_all (take (MAX_TASKS - Suc k) rs) ?os')"
      and i3: "unat (n_os (snd (add_all rs ?os'))) = min (Suc k + length rs) MAX_TASKS"
      by blast+
    have g1: "fst (add_all (r # rs) os) =
          map int [k..<min (k + length (r # rs)) MAX_TASKS]
          @ replicate (length (r # rs) - (MAX_TASKS - k)) (- 1)"
      by (simp only: l1 r1 i1)
    have g2: "snd (add_all (r # rs) os) = snd (add_all (take (MAX_TASKS - k) (r # rs)) os)"
      by (simp only: l2 r2 i2)
    have g3: "unat (n_os (snd (add_all (r # rs) os))) = min (k + length (r # rs)) MAX_TASKS"
      by (simp only: l2 i3 r3)
    from g1 g2 g3 show ?thesis
      by blast
  next
    case False
    then have full: "MAX_TASKS \<le> unat (n_os os)" and k: "k = MAX_TASKS"
      using Cons.prems by simp_all
    have a: "add f p pr os = (- 1, os)"
      using full by (rule add_full)
    from Cons.IH [OF Cons.prems] k a Cons.prems(1) show ?thesis
      unfolding r add_all_Cons by simp
  qed
qed

lemma addTask_full: "MAX_TASKS \<le> unat (taskCount os) \<Longrightarrow> addTask f p pr nm os = (- 1, os)"
  by (simp add: addTask_def)

lemma addTask_free:
  assumes "unat (taskCount os) < MAX_TASKS"
  shows "fst (addTask f p pr nm os) = int (unat (taskCount os))"
    and "unat (taskCount (snd (addTask f p pr nm os))) = Suc (unat (taskCount os))"
  using assms by (simp_all add: addTask_def Let_def MAX_TASKS_def unat_count_Suc)

lemma addTask_all_Cons:
  "addTask_all ((f, p, pr, nm) # rs) os =
     (fst (addTask f p pr nm os) # fst (addTask_all rs (snd (addTask f p pr nm os))),
      snd (addTask_all rs (snd (addTask f p pr nm os))))"
  by (simp split: prod.splits)

declare addTask_all.simps(2) [simp del]

lemma addTask_all_from:
  "unat (taskCount os) = k \<Longrightarrow> k \<le> MAX_TASKS \<Longrightarrow>
   fst (addTask_all rs os) =
     map int [k..<min (k + length rs) MAX_TASKS] @ replicate (length rs - (MAX_TASKS - k)) (- 1)
   \<and> snd (addTask_all rs os) = snd (addTask_all (take (MAX_TASKS - k) rs) os)
   \<and> unat (taskCount (snd (addTask_all rs os))) = min (k + length rs) MAX_TASKS"
proof (induction rs arbitrary: os k)
  case Nil
  then show ?case by simp
next
  case (Cons r rs)
  obtain f p pr nm where r: "r = (f, p, pr, nm)"
    by (cases r) auto
  show ?case
  proof (cases "k < MAX_TASKS")
    case True
    let ?os' = "snd (addTask f p pr nm os)"
    have n': "unat (taskCount ?os') = Suc k" and res: "fst (addTask f p pr nm os) = int k"
      using addTask_free [of os f p pr nm] True Cons.prems by simp_all
    have le: "Suc k \<le> MAX_TASKS"
      using True by simp
    note IH = Cons.IH [OF n' le]
    have l1: "fst (addTask_all (r # rs) os) = int k # fst (addTask_all rs ?os')"
      and l2: "snd (addTask_all (r # rs) os) = snd (addTask_all rs ?os')"
      using res by (simp_all add: r addTask_all_Cons)
    have upt: "[k..<min (k + length (r # rs)) MAX_TASKS]
        = k # [Suc k..<min (Suc k + length rs) MAX_TASKS]"
      using True by (simp add: upt_conv_Cons)
    have rp: "length (r # rs) - (MAX_TASKS - k) = length rs - (MAX_TASKS - Suc k)"
      using True by simp
    have r1: "map int [k..<min (k + length (r # rs)) MAX_TASKS]
          @ replicate (length (r # rs) - (MAX_TASKS - k)) (- 1)
        = int k # (map int [Suc k..<min (Suc k + length rs) MAX_TASKS]
          @ replicate (length rs - (MAX_TASKS - Suc k)) (- 1))"
      unfolding upt rp by simp
    have tk: "take (MAX_TASKS - k) (r # rs) = r # take (MAX_TASKS - Suc k) rs"
      using True by (simp add: take_Cons')
    have r2: "snd (addTask_all (take (MAX_TASKS - k) (r # rs)) os)
        = snd (addTask_all (take (MAX_TASKS - Suc k) rs) ?os')"
      unfolding tk by (simp add: r addTask_all_Cons)
    have r3: "min (k + length (r # rs)) MAX_TASKS = min (Suc k + length rs) MAX_TASKS"
      by simp
    from IH have i1: "fst (addTask_all rs ?os') =
          map int [Suc k..<min (Suc k + length rs) MAX_TASKS]
          @ replicate (length rs - (MAX_TASKS - Suc k)) (- 1)"
      and i2: "snd (addTask_all rs ?os') = snd (addTask_all (take (MAX_TASKS - Suc k) rs) ?os')"
      and i3: "unat (taskCount (snd (addTask_all rs ?os'))) = min (Suc k + length rs) MAX_TASKS"
      by blast+
    have g1: "fst (addTask_all (r # rs) os) =
          map int [k..<min (k + length (r # rs)) MAX_TASKS]
          @ replicate (length (r # rs) - (MAX_TASKS - k)) (- 1)"
      by (simp only: l1 r1 i1)
    have g2: "snd (addTask_all (r # rs) os) = snd (addTask_all (take (MAX_TASKS - k) (r # rs)) os)"
      by (simp only: l2 r2 i2)
    have g3: "unat (taskCount (snd (addTask_all (r # rs) os))) = min (k + length (r # rs)) MAX_TASKS"
      by (simp only: l2 i3 r3)
    from g1 g2 g3 show ?thesis
      by blast
  next
    case False
    then have full: "MAX_TASKS \<le> unat (taskCount os)" and k: "k = MAX_TASKS"
      using Cons.prems by simp_all
    have a: "addTask f p pr nm os = (- 1, os)"
      using full by (rule addTask_full)
    from Cons.IH [OF Cons.prems] k a Cons.prems(1) show ?thesis
      unfolding r addTask_all_Cons by simp
  qed
qed

text \<open>
  C4. Whatever the registrations made from the constructor's state are, the values they
  return are \<open>0, 1, ..., N - 1\<close> in call order for the first \<open>N = MAX_TASKS = 6\<close> of them and
  \<open>-1\<close> for each later one; the state after all of them is the state after the first \<open>N\<close>;
  and once \<open>N\<close> registrations were made, a further one returns \<open>-1\<close> and the whole
  kernel state (table, count, descriptors) as it was. This holds for \<^verbatim>\<open>add\<close> of the second
  variant and for \<^verbatim>\<open>addTask\<close> of the first.
\<close>

theorem registration_capacity:
  "fst (add_all rs NimbusOS_init)
       = map int [0..<min (length rs) MAX_TASKS] @ replicate (length rs - MAX_TASKS) (- 1)
   \<and> snd (add_all rs NimbusOS_init) = snd (add_all (take MAX_TASKS rs) NimbusOS_init)
   \<and> unat (n_os (snd (add_all rs NimbusOS_init))) = min (length rs) MAX_TASKS
   \<and> (MAX_TASKS \<le> length rs \<longrightarrow>
        add f p pr (snd (add_all rs NimbusOS_init)) = (- 1, snd (add_all rs NimbusOS_init)))
   \<and> fst (addTask_all qs NimbusOS1_init)
       = map int [0..<min (length qs) MAX_TASKS] @ replicate (length qs - MAX_TASKS) (- 1)
   \<and> snd (addTask_all qs NimbusOS1_init) = snd (addTask_all (take MAX_TASKS qs) NimbusOS1_init)
   \<and> unat (taskCount (snd (addTask_all qs NimbusOS1_init))) = min (length qs) MAX_TASKS
   \<and> (MAX_TASKS \<le> length qs \<longrightarrow>
        addTask f p pr nm (snd (addTask_all qs NimbusOS1_init))
          = (- 1, snd (addTask_all qs NimbusOS1_init)))"
proof -
  have z: "unat (n_os NimbusOS_init) = 0" "unat (taskCount NimbusOS1_init) = 0"
    by (simp_all add: NimbusOS_init_def NimbusOS1_init_def)
  note a = add_all_from [OF z(1), of rs, simplified]
  note b = addTask_all_from [OF z(2), of qs, simplified]
  have na: "unat (n_os (snd (add_all rs NimbusOS_init))) = min (length rs) MAX_TASKS"
    using a by blast
  have nb: "unat (taskCount (snd (addTask_all qs NimbusOS1_init))) = min (length qs) MAX_TASKS"
    using b by blast
  have c: "add f p pr (snd (add_all rs NimbusOS_init)) = (- 1, snd (add_all rs NimbusOS_init))"
    if "MAX_TASKS \<le> length rs"
    by (rule add_full) (simp add: na that)
  have d: "addTask f p pr nm (snd (addTask_all qs NimbusOS1_init))
      = (- 1, snd (addTask_all qs NimbusOS1_init))"
    if "MAX_TASKS \<le> length qs"
    by (rule addTask_full) (simp add: nb that)
  from a b c d show ?thesis
    by blast
qed

theorem registration_capacity_witness:
  "fst (add_all [(0, 0, 2), (1, 1000, 3), (2, 0, 1), (3, 10, 3), (4, 100, 2), (5, 0, 0),
                 (6, 0, 3), (7, 5, 1)] NimbusOS_init)
     = [0, 1, 2, 3, 4, 5, - 1, - 1]
   \<and> add 8 0 3 (snd (add_all [(0, 0, 2), (1, 1000, 3), (2, 0, 1), (3, 10, 3), (4, 100, 2),
                 (5, 0, 0), (6, 0, 3), (7, 5, 1)] NimbusOS_init))
     = (- 1, snd (add_all [(0, 0, 2), (1, 1000, 3), (2, 0, 1), (3, 10, 3), (4, 100, 2),
                 (5, 0, 0), (6, 0, 3), (7, 5, 1)] NimbusOS_init))"
proof -
  let ?L = "[(0, 0, 2), (1, 1000, 3), (2, 0, 1), (3, 10, 3), (4, 100, 2), (5, 0, 0),
            (6, 0, 3), (7, 5, 1)] :: (nat \<times> u16 \<times> u8) list"
  note t = registration_capacity [of ?L 8 0 3 "[]" "[]"]
  have len: "MAX_TASKS \<le> length ?L"
    by (simp add: MAX_TASKS_def)
  have rhs: "map int [0..<min (length ?L) MAX_TASKS] @ replicate (length ?L - MAX_TASKS) (- 1)
      = [0, 1, 2, 3, 4, 5, - 1, - 1]"
    by (simp add: MAX_TASKS_def upt_rec)
  from t have 1: "fst (add_all ?L NimbusOS_init)
      = map int [0..<min (length ?L) MAX_TASKS] @ replicate (length ?L - MAX_TASKS) (- 1)"
    by blast
  from t len have 2: "add 8 0 3 (snd (add_all ?L NimbusOS_init))
      = (- 1, snd (add_all ?L NimbusOS_init))"
    by blast
  from 1 rhs 2 show ?thesis
    by (simp only:)
qed

subsection \<open>The selection loop\<close>

lemma due_wake [simp]: "due now (wake now x) = due now x"
  by (simp add: due_def wake_def)

lemma pri_wake [simp]: "pri (wake now x) = pri x"
  by (simp add: wake_def)

lemma states_distinct [simp]:
  "T_READY \<noteq> T_WAIT" "T_WAIT \<noteq> T_READY" "T_READY \<noteq> T_RUN" "T_RUN \<noteq> T_READY"
  "T_READY \<noteq> T_SUSPENDED" "T_SUSPENDED \<noteq> T_READY" "T_WAIT \<noteq> T_RUN" "T_RUN \<noteq> T_WAIT"
  "T_WAIT \<noteq> T_SUSPENDED" "T_SUSPENDED \<noteq> T_WAIT" "T_RUN \<noteq> T_SUSPENDED" "T_SUSPENDED \<noteq> T_RUN"
  by (simp_all add: T_READY_def T_WAIT_def T_RUN_def T_SUSPENDED_def)

lemma scan_step_split:
  "i < length (t_os os) \<Longrightarrow>
   scan_step now i (os, b, m) = (wake_at now i os, pick_last (candidate now os) i (b, m))"
  by (auto simp add: scan_step_def wake_at_def pick_last_def candidate_def suspended_def wake_def
      due_def Let_def)

lemma wake_at_fields [simp]:
  "suspendFlags (wake_at now i os) = suspendFlags os"
  "n_os (wake_at now i os) = n_os os"
  "cur (wake_at now i os) = cur os"
  "length (t_os (wake_at now i os)) = length (t_os os)"
  by (simp_all add: wake_at_def)

lemma wake_at_nth_other: "j \<noteq> i \<Longrightarrow> t_os (wake_at now i os) ! j = t_os os ! j"
  by (simp add: wake_at_def)

lemma wake_at_nth_same:
  "i < length (t_os os) \<Longrightarrow>
   t_os (wake_at now i os) ! i
     = (if suspended (suspendFlags os) i then t_os os ! i else wake now (t_os os ! i))"
  by (simp add: wake_at_def)

lemma candidate_cong:
  "suspendFlags os' = suspendFlags os \<Longrightarrow> t_os os' ! i = t_os os ! i \<Longrightarrow>
   candidate now os' i = candidate now os i"
  by (simp add: candidate_def)

lemma woken_Suc: "woken now (Suc k) os = wake_at now k (woken now k os)"
  by (simp add: woken_def)

lemma woken_fields [simp]:
  "suspendFlags (woken now k os) = suspendFlags os"
  "n_os (woken now k os) = n_os os"
  "cur (woken now k os) = cur os"
  "length (t_os (woken now k os)) = length (t_os os)"
  by (induction k) (simp_all add: woken_Suc, simp_all add: woken_def)

lemma woken_nth:
  "j < length (t_os os) \<Longrightarrow>
   t_os (woken now k os) ! j
     = (if j < k \<and> \<not> suspended (suspendFlags os) j then wake now (t_os os ! j) else t_os os ! j)"
proof (induction k)
  case 0
  then show ?case by (simp add: woken_def)
next
  case (Suc k)
  show ?case
  proof (cases "j = k")
    case True
    then show ?thesis
      using Suc by (simp add: woken_Suc wake_at_nth_same)
  next
    case False
    then show ?thesis
      using Suc by (auto simp add: woken_Suc wake_at_nth_other)
  qed
qed

lemma scan_fold:
  "k \<le> length (t_os os) \<Longrightarrow>
   fold (scan_step now) [0..<k] (os, b, m)
     = (woken now k os, fold (pick_last (candidate now os)) [0..<k] (b, m))"
proof (induction k)
  case 0
  then show ?case by (simp add: woken_def)
next
  case (Suc k)
  then have k: "k < length (t_os os)" by simp
  have c: "candidate now (woken now k os) k = candidate now os k"
    by (rule candidate_cong) (simp_all add: woken_nth k)
  obtain b' m' where f: "fold (pick_last (candidate now os)) [0..<k] (b, m) = (b', m')"
    by (cases "fold (pick_last (candidate now os)) [0..<k] (b, m)")
  have p: "pick_last (candidate now (woken now k os)) k (b', m') = pick_last (candidate now os) k (b', m')"
    by (simp add: pick_last_def c)
  from Suc k show ?case
    by (simp add: scan_step_split woken_Suc f p)
qed

lemma pick_last_fold:
  "fold (pick_last c) [0..<k] (- 1, 0) = (b, m) \<Longrightarrow>
   ((\<forall>j<k. c j = None) \<longrightarrow> b = - 1 \<and> m = 0)
   \<and> ((\<exists>j<k. c j \<noteq> None) \<longrightarrow>
        0 \<le> b \<and> nat b < k \<and> c (nat b) = Some m
        \<and> (\<forall>j<k. \<forall>p. c j = Some p \<longrightarrow> p \<le> m \<and> (p = m \<longrightarrow> j \<le> nat b)))"
proof (induction k arbitrary: b m)
  case 0
  then show ?case by simp
next
  case (Suc k)
  obtain b0 m0 where f: "fold (pick_last c) [0..<k] (- 1, 0) = (b0, m0)"
    by (cases "fold (pick_last c) [0..<k] (- 1, 0)")
  note IH = Suc.IH [OF f]
  from Suc.prems f have step: "pick_last c k (b0, m0) = (b, m)"
    by simp
  show ?case
  proof (cases "c k")
    case None
    with step have eq: "b = b0" "m = m0"
      by (simp_all add: pick_last_def)
    have "(\<forall>j<Suc k. c j = None) = (\<forall>j<k. c j = None)"
      using None by (auto simp: less_Suc_eq)
    moreover have "(\<exists>j<Suc k. c j \<noteq> None) = (\<exists>j<k. c j \<noteq> None)"
      using None by (auto simp: less_Suc_eq)
    ultimately show ?thesis
      using IH None unfolding eq by (auto simp: less_Suc_eq)
  next
    case (Some p)
    show ?thesis
    proof (cases "m0 \<le> p")
      case True
      with step Some have eq: "b = int k" "m = p"
        by (simp_all add: pick_last_def)
      have "q \<le> p" if "j < k" "c j = Some q" for j q
        using IH that True by (metis option.distinct(1) order_trans)
      then show ?thesis
        using Some unfolding eq by (auto simp: less_Suc_eq)
    next
      case False
      with step Some have eq: "b = b0" "m = m0"
        by (simp_all add: pick_last_def)
      from False have "m0 \<noteq> 0"
        by auto
      with IH have ex: "\<exists>j<k. c j \<noteq> None"
        by blast
      with IH have *: "0 \<le> b0" "nat b0 < k" "c (nat b0) = Some m0"
        "\<And>j q. j < k \<Longrightarrow> c j = Some q \<Longrightarrow> q \<le> m0 \<and> (q = m0 \<longrightarrow> j \<le> nat b0)"
        by blast+
      show ?thesis
        unfolding eq using * Some False by (auto simp: less_Suc_eq)
    qed
  qed
qed

lemma pick_first_fold:
  "fold (pick_first c) [0..<k] (- 1, 0) = (b, m) \<Longrightarrow>
   ((\<forall>j<k. \<forall>p. c j = Some p \<longrightarrow> p = 0) \<longrightarrow> b = - 1 \<and> m = 0)
   \<and> ((\<exists>j<k. \<exists>p. c j = Some p \<and> p \<noteq> 0) \<longrightarrow>
        0 \<le> b \<and> nat b < k \<and> c (nat b) = Some m \<and> m \<noteq> 0
        \<and> (\<forall>j<k. \<forall>p. c j = Some p \<longrightarrow> p \<le> m \<and> (p = m \<longrightarrow> nat b \<le> j)))"
proof (induction k arbitrary: b m)
  case 0
  then show ?case by simp
next
  case (Suc k)
  obtain b0 m0 where f: "fold (pick_first c) [0..<k] (- 1, 0) = (b0, m0)"
    by (cases "fold (pick_first c) [0..<k] (- 1, 0)")
  note IH = Suc.IH [OF f]
  from Suc.prems f have step: "pick_first c k (b0, m0) = (b, m)"
    by simp
  have m0: "m0 = 0" if "\<forall>j<k. \<forall>p. c j = Some p \<longrightarrow> p = 0"
    using IH that by blast
  have bound: "q \<le> m0" if "j < k" "c j = Some q" for j q
  proof (cases "\<forall>j<k. \<forall>p. c j = Some p \<longrightarrow> p = 0")
    case True
    then show ?thesis using that m0 by auto
  next
    case False
    then show ?thesis using IH that by blast
  qed
  show ?case
  proof (cases "c k")
    case None
    with step have eq: "b = b0" "m = m0"
      by (simp_all add: pick_first_def)
    show ?thesis
      using IH None unfolding eq by (auto simp: less_Suc_eq)
  next
    case (Some p)
    show ?thesis
    proof (cases "m0 < p")
      case True
      with step Some have eq: "b = int k" "m = p"
        by (simp_all add: pick_first_def)
      have lt: "q < p" if "j < k" "c j = Some q" for j q
        using bound that True by (meson order_le_less_trans)
      have "p \<noteq> 0"
        using True by auto
      then show ?thesis
        using Some lt unfolding eq by (auto simp: less_Suc_eq dest: lt)
    next
      case False
      with step Some have eq: "b = b0" "m = m0"
        by (simp_all add: pick_first_def)
      from False have le: "p \<le> m0"
        by simp
      show ?thesis
      proof (cases "\<forall>j<k. \<forall>p. c j = Some p \<longrightarrow> p = 0")
        case True
        then have z: "m0 = 0" by (rule m0)
        with le have "p = 0" by simp
        with True Some have all: "\<forall>j<Suc k. \<forall>p. c j = Some p \<longrightarrow> p = 0"
          by (auto simp: less_Suc_eq)
        from IH True have "b0 = - 1 \<and> m0 = 0" by blast
        with all show ?thesis unfolding eq by blast
      next
        case F: False
        with IH have *: "0 \<le> b0" "nat b0 < k" "c (nat b0) = Some m0" "m0 \<noteq> 0"
          "\<And>j q. j < k \<Longrightarrow> c j = Some q \<Longrightarrow> q \<le> m0 \<and> (q = m0 \<longrightarrow> nat b0 \<le> j)"
          by blast+
        show ?thesis
          unfolding eq using * Some le by (auto simp: less_Suc_eq)
      qed
    qed
  qed
qed

lemma states1_distinct [simp]:
  "TASK_READY \<noteq> TASK_WAITING" "TASK_WAITING \<noteq> TASK_READY"
  by (simp_all add: TASK_READY_def TASK_WAITING_def)

lemma due1_wake1 [simp]: "due1 now (wake1 now x) = due1 now x"
  by (simp add: due1_def wake1_def)

lemma priority_wake1 [simp]: "priority (wake1 now x) = priority x"
  by (simp add: wake1_def)

lemma scan_step1_split:
  "i < length (tasks os) \<Longrightarrow>
   scan_step1 now i (os, b, m) = (wake_at1 now i os, pick_first (candidate1 now os) i (b, m))"
  by (auto simp add: scan_step1_def wake_at1_def pick_first_def candidate1_def suspended_def
      wake1_def due1_def Let_def)

lemma wake_at1_fields [simp]:
  "suspendFlags1 (wake_at1 now i os) = suspendFlags1 os"
  "taskCount (wake_at1 now i os) = taskCount os"
  "length (tasks (wake_at1 now i os)) = length (tasks os)"
  by (simp_all add: wake_at1_def)

lemma wake_at1_nth_other: "j \<noteq> i \<Longrightarrow> tasks (wake_at1 now i os) ! j = tasks os ! j"
  by (simp add: wake_at1_def)

lemma wake_at1_nth_same:
  "i < length (tasks os) \<Longrightarrow>
   tasks (wake_at1 now i os) ! i
     = (if suspended (suspendFlags1 os) i then tasks os ! i else wake1 now (tasks os ! i))"
  by (simp add: wake_at1_def)

lemma woken1_Suc: "woken1 now (Suc k) os = wake_at1 now k (woken1 now k os)"
  by (simp add: woken1_def)

lemma woken1_fields [simp]:
  "suspendFlags1 (woken1 now k os) = suspendFlags1 os"
  "taskCount (woken1 now k os) = taskCount os"
  "length (tasks (woken1 now k os)) = length (tasks os)"
  by (induction k) (simp_all add: woken1_Suc, simp_all add: woken1_def)

lemma woken1_nth:
  "j < length (tasks os) \<Longrightarrow>
   tasks (woken1 now k os) ! j
     = (if j < k \<and> \<not> suspended (suspendFlags1 os) j then wake1 now (tasks os ! j)
        else tasks os ! j)"
proof (induction k)
  case 0
  then show ?case by (simp add: woken1_def)
next
  case (Suc k)
  show ?case
  proof (cases "j = k")
    case True
    then show ?thesis
      using Suc by (simp add: woken1_Suc wake_at1_nth_same)
  next
    case False
    then show ?thesis
      using Suc by (auto simp add: woken1_Suc wake_at1_nth_other)
  qed
qed

lemma scan1_fold:
  "k \<le> length (tasks os) \<Longrightarrow>
   fold (scan_step1 now) [0..<k] (os, b, m)
     = (woken1 now k os, fold (pick_first (candidate1 now os)) [0..<k] (b, m))"
proof (induction k)
  case 0
  then show ?case by (simp add: woken1_def)
next
  case (Suc k)
  then have k: "k < length (tasks os)" by simp
  have c: "candidate1 now (woken1 now k os) k = candidate1 now os k"
    by (simp add: candidate1_def woken1_nth k)
  obtain b' m' where f: "fold (pick_first (candidate1 now os)) [0..<k] (b, m) = (b', m')"
    by (cases "fold (pick_first (candidate1 now os)) [0..<k] (b, m)")
  have p: "pick_first (candidate1 now (woken1 now k os)) k (b', m')
      = pick_first (candidate1 now os) k (b', m')"
    by (simp add: pick_first_def c)
  from Suc k show ?case
    by (simp add: scan_step1_split woken1_Suc f p)
qed

lemma eligible_woken:
  assumes "unat (n_os os) \<le> length (t_os os)"
  shows "eligible now (woken now (unat (n_os os)) os) i
     \<longleftrightarrow> i < unat (n_os os) \<and> candidate now os i \<noteq> None"
  using assms by (auto simp add: eligible_def candidate_def woken_nth)

lemma eligible1_woken1:
  assumes "unat (taskCount os) \<le> length (tasks os)"
  shows "eligible1 now (woken1 now (unat (taskCount os)) os) i
     \<longleftrightarrow> i < unat (taskCount os) \<and> candidate1 now os i \<noteq> None"
  using assms by (auto simp add: eligible1_def candidate1_def woken1_nth)

lemma pri_woken:
  "i < length (t_os os) \<Longrightarrow> pri (t_os (woken now k os) ! i) = pri (t_os os ! i)"
  by (simp add: woken_nth)

lemma priority_woken1:
  "i < length (tasks os) \<Longrightarrow> priority (tasks (woken1 now k os) ! i) = priority (tasks os ! i)"
  by (simp add: woken1_nth)

lemma unat_ucast_2_8: "unat (ucast (a :: 2 word) :: u8) = unat a"
proof -
  have "unat a < 2 ^ 2"
    using unsigned_less [of a] by simp
  then have "unat a < 2 ^ 8"
    by simp
  then show ?thesis
    by (simp add: unsigned_ucast_eq take_bit_nat_eq_self)
qed

lemma unat_ucast_3_8: "unat (ucast (a :: 3 word) :: u8) = unat a"
proof -
  have "unat a < 2 ^ 3"
    using unsigned_less [of a] by simp
  then have "unat a < 2 ^ 8"
    by simp
  then show ?thesis
    by (simp add: unsigned_ucast_eq take_bit_nat_eq_self)
qed

lemma ucast_state_eq: "((ucast (a :: 3 word) :: u8) = ucast (b :: 3 word)) = (a = b)"
  by (metis unat_ucast_3_8 word_unat_eq_iff)

lemma ucast_pri_le: "(ucast (a :: 2 word) \<le> (ucast (b :: 2 word) :: u8)) = (a \<le> b)"
  by (simp add: word_le_nat_alt unat_ucast_2_8)

lemma ucast_pri_eq: "((ucast (a :: 2 word) :: u8) = ucast (b :: 2 word)) = (a = b)"
  by (metis ucast_pri_le order_antisym order_refl)

lemma scan_selects:
  assumes len: "unat (n_os os) \<le> length (t_os os)"
    and sc: "scan now os = (os', best, maxPri)"
  shows "os' = woken now (unat (n_os os)) os"
    and "(\<forall>i. \<not> eligible now os' i) \<Longrightarrow> best = - 1"
    and "eligible now os' i \<Longrightarrow>
         0 \<le> best \<and> eligible now os' (nat best)
         \<and> maxPri = ucast (pri (t_os os' ! nat best))
         \<and> pri (t_os os' ! i) \<le> pri (t_os os' ! nat best)
         \<and> (pri (t_os os' ! i) = pri (t_os os' ! nat best) \<longrightarrow> i \<le> nat best)"
proof -
  let ?n = "unat (n_os os)"
  let ?c = "candidate now os"
  from sc len have os': "os' = woken now ?n os"
    and f: "fold (pick_last ?c) [0..<?n] (- 1, 0) = (best, maxPri)"
    by (simp_all add: scan_def scan_fold)
  note P = pick_last_fold [OF f]
  note E = eligible_woken [OF len, of now, folded os']
  show "os' = woken now ?n os" by (rule os')
  show "best = - 1" if "\<forall>i. \<not> eligible now os' i"
    using that P E by blast
  show "0 \<le> best \<and> eligible now os' (nat best)
         \<and> maxPri = ucast (pri (t_os os' ! nat best))
         \<and> pri (t_os os' ! i) \<le> pri (t_os os' ! nat best)
         \<and> (pri (t_os os' ! i) = pri (t_os os' ! nat best) \<longrightarrow> i \<le> nat best)"
    if el: "eligible now os' i"
  proof -
    from el E have i: "i < ?n" and ci: "?c i \<noteq> None"
      by blast+
    then have ex: "\<exists>j<?n. ?c j \<noteq> None"
      by blast
    with P have b: "0 \<le> best" "nat best < ?n" "?c (nat best) = Some maxPri"
      and all: "\<And>j p. j < ?n \<Longrightarrow> ?c j = Some p \<Longrightarrow> p \<le> maxPri \<and> (p = maxPri \<longrightarrow> j \<le> nat best)"
      by blast+
    have val: "?c j = Some (ucast (pri (t_os os' ! j)))" if "j < ?n" "?c j \<noteq> None" for j
      using that len by (simp add: candidate_def os' pri_woken split: if_splits)
    have mp: "maxPri = ucast (pri (t_os os' ! nat best))"
      using val [of "nat best"] b by simp
    have eb: "eligible now os' (nat best)"
      using E b by simp
    from all [OF i val [OF i ci]] show ?thesis
      using b(1) eb mp by (simp add: ucast_pri_le ucast_pri_eq)
  qed
qed

lemma scan1_selects:
  assumes len: "unat (taskCount os) \<le> length (tasks os)"
    and sc: "scan1 now os = (os', best, hp)"
  shows "os' = woken1 now (unat (taskCount os)) os"
    and "(\<forall>i. eligible1 now os' i \<longrightarrow> priority (tasks os' ! i) = 0) \<Longrightarrow> best = - 1"
    and "eligible1 now os' i \<Longrightarrow> priority (tasks os' ! i) \<noteq> 0 \<Longrightarrow>
         0 \<le> best \<and> eligible1 now os' (nat best)
         \<and> hp = priority (tasks os' ! nat best)
         \<and> priority (tasks os' ! i) \<le> priority (tasks os' ! nat best)
         \<and> (priority (tasks os' ! i) = priority (tasks os' ! nat best) \<longrightarrow> nat best \<le> i)"
proof -
  let ?n = "unat (taskCount os)"
  let ?c = "candidate1 now os"
  from sc len have os': "os' = woken1 now ?n os"
    and f: "fold (pick_first ?c) [0..<?n] (- 1, 0) = (best, hp)"
    by (simp_all add: scan1_def scan1_fold)
  note P = pick_first_fold [OF f]
  note E = eligible1_woken1 [OF len, of now, folded os']
  have val: "?c j = Some (priority (tasks os' ! j))" if "j < ?n" "?c j \<noteq> None" for j
    using that len by (simp add: candidate1_def os' priority_woken1 split: if_splits)
  show "os' = woken1 now ?n os" by (rule os')
  show "best = - 1" if a: "\<forall>i. eligible1 now os' i \<longrightarrow> priority (tasks os' ! i) = 0"
  proof -
    have "p = 0" if "j < ?n" "?c j = Some p" for j p
      using that a E [of j] val [of j] by auto
    with P show ?thesis by blast
  qed
  show "0 \<le> best \<and> eligible1 now os' (nat best)
         \<and> hp = priority (tasks os' ! nat best)
         \<and> priority (tasks os' ! i) \<le> priority (tasks os' ! nat best)
         \<and> (priority (tasks os' ! i) = priority (tasks os' ! nat best) \<longrightarrow> nat best \<le> i)"
    if el: "eligible1 now os' i" and nz: "priority (tasks os' ! i) \<noteq> 0"
  proof -
    from el E have i: "i < ?n" and ci: "?c i \<noteq> None"
      by blast+
    from val [OF i ci] nz have ex: "\<exists>j<?n. \<exists>p. ?c j = Some p \<and> p \<noteq> 0"
      using i by blast
    with P have b: "0 \<le> best" "nat best < ?n" "?c (nat best) = Some hp"
      and all: "\<And>j p. j < ?n \<Longrightarrow> ?c j = Some p \<Longrightarrow> p \<le> hp \<and> (p = hp \<longrightarrow> nat best \<le> j)"
      by blast+
    have mp: "hp = priority (tasks os' ! nat best)"
      using val [of "nat best"] b by simp
    have eb: "eligible1 now os' (nat best)"
      using E b by simp
    from all [OF i val [OF i ci]] show ?thesis
      using b(1) eb mp by simp
  qed
qed

lemma state_consts: "TASK_READY = ucast T_READY" "TASK_WAITING = ucast T_WAIT"
  by (simp_all add: TASK_READY_def T_READY_def TASK_WAITING_def T_WAIT_def)

lemma same_tasks_nth:
  assumes "same_tasks a b" and "i < unat (n_os b)"
  shows "same_task (tasks a ! i) (t_os b ! i)"
proof -
  from assms(1) have n: "taskCount a = n_os b"
    and la: "unat (taskCount a) \<le> length (tasks a)" and lb: "unat (n_os b) \<le> length (t_os b)"
    and all: "list_all2 same_task (take (unat (taskCount a)) (tasks a))
                (take (unat (n_os b)) (t_os b))"
    unfolding same_tasks_def by blast+
  from assms(2) la n have "i < length (take (unat (taskCount a)) (tasks a))"
    by simp
  from list_all2_nthD [OF all this] assms(2) n show ?thesis
    by simp
qed

lemma same_tasks_candidate:
  assumes "same_tasks a b" and "i < unat (n_os b)"
  shows "candidate1 now a i = candidate now b i"
proof -
  from assms(1) have f: "suspendFlags1 a = suspendFlags b"
    unfolding same_tasks_def by blast
  from same_tasks_nth [OF assms]
  have x: "period1 (tasks a ! i) = period (t_os b ! i)"
      "lastRun (tasks a ! i) = last_t (t_os b ! i)"
      "state1 (tasks a ! i) = ucast (state (t_os b ! i))"
      "priority (tasks a ! i) = ucast (pri (t_os b ! i))"
      "wakeTime (tasks a ! i) = sleepUntil (t_os b ! i)"
    by (simp_all add: same_task_def)
  show ?thesis
    by (simp add: candidate1_def candidate_def f x wake1_def wake_def due1_def due_def
        state_consts ucast_state_eq)
qed

lemma same_tasks_after:
  assumes rel: "same_tasks a b"
    and s1: "scan1 now a = (a', best1, hp1)"
    and s2: "scan now b = (b', best2, hp2)"
  shows "eligible1 now a' k = eligible now b' k"
    and "k < unat (n_os b) \<Longrightarrow> priority (tasks a' ! k) = ucast (pri (t_os b' ! k))"
proof -
  from rel have n: "taskCount a = n_os b"
    and la: "unat (taskCount a) \<le> length (tasks a)" and lb: "unat (n_os b) \<le> length (t_os b)"
    unfolding same_tasks_def by blast+
  note a' = scan1_selects(1) [OF la s1]
  note b' = scan_selects(1) [OF lb s2]
  have e1: "eligible1 now a' k \<longleftrightarrow> k < unat (n_os b) \<and> candidate1 now a k \<noteq> None"
    using eligible1_woken1 [OF la, of now k] by (simp add: a' n)
  have e2: "eligible now b' k \<longleftrightarrow> k < unat (n_os b) \<and> candidate now b k \<noteq> None"
    using eligible_woken [OF lb, of now k] by (simp add: b')
  show "eligible1 now a' k = eligible now b' k"
  proof (cases "k < unat (n_os b)")
    case True
    from same_tasks_candidate [OF rel True, of now] show ?thesis
      unfolding e1 e2 by (simp only:)
  next
    case False
    then show ?thesis
      unfolding e1 e2 by simp
  qed
  show "priority (tasks a' ! k) = ucast (pri (t_os b' ! k))" if "k < unat (n_os b)"
    using that same_tasks_nth [OF rel that] la lb n unfolding a' b'
    by (simp add: priority_woken1 pri_woken same_task_def)
qed

lemma ucast_pri_zero: "((ucast (a :: 2 word) :: u8) = 0) = (a = 0)"
  using ucast_pri_eq [of a 0] by simp

text \<open>
  What the two loops select. In an iteration of either variant every eligible task is
  compared with the selected one on the table the loop leaves (that is, after the
  wake-ups of this iteration): a task is selected whenever one is eligible, the selected
  task is eligible and no eligible task has a higher priority. Among the eligible tasks
  of that highest priority the first variant (\<^verbatim>\<open>>\<close>, priorities from \<open>PRIORITY_LOW = 1\<close>
  upwards) selects the one with the lowest id, the second variant (\<^verbatim>\<open>>=\<close>) the one with
  the highest id.
\<close>

lemma scan_order_tie_break:
  "(unat (n_os os) \<le> length (t_os os) \<and> scan now os = (os', best, maxPri)
      \<and> eligible now os' i \<longrightarrow>
        0 \<le> best \<and> eligible now os' (nat best)
        \<and> pri (t_os os' ! i) \<le> pri (t_os os' ! nat best)
        \<and> (pri (t_os os' ! i) = pri (t_os os' ! nat best) \<longrightarrow> i \<le> nat best))
   \<and> (unat (taskCount a) \<le> length (tasks a) \<and> scan1 now a = (a', best1, hp)
      \<and> eligible1 now a' j \<and> priority (tasks a' ! j) \<noteq> 0 \<longrightarrow>
        0 \<le> best1 \<and> eligible1 now a' (nat best1)
        \<and> priority (tasks a' ! j) \<le> priority (tasks a' ! nat best1)
        \<and> (priority (tasks a' ! j) = priority (tasks a' ! nat best1) \<longrightarrow> nat best1 \<le> j))"
  using scan_selects(3) [of os now os' best maxPri i] scan1_selects(3) [of a now a' best1 hp j]
  by blast

text \<open>
  C1 does not hold of the second variant; the iteration below shows it. Three tasks are
  registered with period 0, tasks 0 and 1 at \<open>PRIORITY_NORMAL\<close> and task 2 at
  \<open>PRIORITY_LOW\<close>; all three are eligible at time 5, and tasks 0 and 1 share the highest
  priority. The loop of the second variant selects task 1 and the iteration dispatches
  it, where the lowest id is 0. On the same tasks the loop of the first variant selects
  task 0.
\<close>

theorem second_variant_tie_picks_last:
  "eligible 5 tied_tasks 0 \<and> eligible 5 tied_tasks 1 \<and> eligible 5 tied_tasks 2
   \<and> pri (t_os tied_tasks ! 0) = 2 \<and> pri (t_os tied_tasks ! 1) = 2
   \<and> pri (t_os tied_tasks ! 2) = 1
   \<and> scan 5 tied_tasks = (tied_tasks, 1, 2)
   \<and> cur (run_iter (\<lambda>f os. os) 5 tied_tasks) = 1
   \<and> same_tasks tied_tasks1 tied_tasks
   \<and> scan1 5 tied_tasks1 = (tied_tasks1, 0, 2)"
  by code_simp

text \<open>
  C2. Take a state of the first variant and a state of the second that hold the same
  scheduling data, and an iteration at the same time in which two different tasks are
  eligible at the highest priority among the eligible tasks. Then the two loops leave
  the same tasks eligible and select different tasks: the second variant the tied task
  with the highest index; the first variant the tied task with the lowest index when
  that priority is one of its levels (\<open>1\<close> to \<open>3\<close>), and no task at all when it is \<open>0\<close>.
\<close>

theorem variants_differ_on_ties:
  assumes rel: "same_tasks a b"
    and s1: "scan1 now a = (a', best1, hp1)"
    and s2: "scan now b = (b', best2, hp2)"
    and ei: "eligible now b' i" and ej: "eligible now b' j" and ij: "i \<noteq> j"
    and tie: "pri (t_os b' ! i) = pri (t_os b' ! j)"
    and top: "\<forall>k. eligible now b' k \<longrightarrow> pri (t_os b' ! k) \<le> pri (t_os b' ! i)"
  shows "best1 \<noteq> best2
     \<and> (\<forall>k. eligible1 now a' k = eligible now b' k)
     \<and> 0 \<le> best2 \<and> eligible now b' (nat best2)
     \<and> pri (t_os b' ! nat best2) = pri (t_os b' ! i)
     \<and> (\<forall>k. eligible now b' k \<and> pri (t_os b' ! k) = pri (t_os b' ! i) \<longrightarrow> k \<le> nat best2)
     \<and> (pri (t_os b' ! i) \<noteq> 0 \<longrightarrow>
          0 \<le> best1 \<and> eligible now b' (nat best1)
          \<and> pri (t_os b' ! nat best1) = pri (t_os b' ! i)
          \<and> (\<forall>k. eligible now b' k \<and> pri (t_os b' ! k) = pri (t_os b' ! i) \<longrightarrow> nat best1 \<le> k))
     \<and> (pri (t_os b' ! i) = 0 \<longrightarrow> best1 = - 1)"
proof -
  from rel have n: "taskCount a = n_os b"
    and la: "unat (taskCount a) \<le> length (tasks a)" and lb: "unat (n_os b) \<le> length (t_os b)"
    unfolding same_tasks_def by blast+
  note b' = scan_selects(1) [OF lb s2]
  note E = same_tasks_after(1) [OF rel s1 s2]
  have P: "priority (tasks a' ! k) = ucast (pri (t_os b' ! k))" if "eligible now b' k" for k
    using that same_tasks_after(2) [OF rel s1 s2, of k] by (simp add: eligible_def b')
  note S2 = scan_selects(3) [OF lb s2]
  from S2 [OF ei] have b2: "0 \<le> best2" "eligible now b' (nat best2)"
    and ge: "pri (t_os b' ! i) \<le> pri (t_os b' ! nat best2)"
    by blast+
  from top b2(2) ge have eq2: "pri (t_os b' ! nat best2) = pri (t_os b' ! i)"
    by (simp add: order_antisym)
  have last: "k \<le> nat best2" if "eligible now b' k" "pri (t_os b' ! k) = pri (t_os b' ! i)" for k
    using S2 [OF that(1)] that(2) eq2 by simp
  have first: "0 \<le> best1 \<and> eligible now b' (nat best1)
          \<and> pri (t_os b' ! nat best1) = pri (t_os b' ! i)
          \<and> (\<forall>k. eligible now b' k \<and> pri (t_os b' ! k) = pri (t_os b' ! i) \<longrightarrow> nat best1 \<le> k)"
    if nz: "pri (t_os b' ! i) \<noteq> 0"
  proof -
    have S1: "0 \<le> best1 \<and> eligible now b' (nat best1)
         \<and> pri (t_os b' ! k) \<le> pri (t_os b' ! nat best1)
         \<and> (pri (t_os b' ! k) = pri (t_os b' ! nat best1) \<longrightarrow> nat best1 \<le> k)"
      if k: "eligible now b' k" "pri (t_os b' ! k) \<noteq> 0" for k
    proof -
      from k have "eligible1 now a' k" "priority (tasks a' ! k) \<noteq> 0"
        by (simp_all add: E P ucast_pri_zero)
      from scan1_selects(3) [OF la s1 this]
      have *: "0 \<le> best1" "eligible1 now a' (nat best1)"
        "priority (tasks a' ! k) \<le> priority (tasks a' ! nat best1)"
        "priority (tasks a' ! k) = priority (tasks a' ! nat best1) \<longrightarrow> nat best1 \<le> k"
        by blast+
      from *(2) have eb: "eligible now b' (nat best1)"
        by (simp add: E)
      from * show ?thesis
        using eb k(1) by (simp add: P ucast_pri_le ucast_pri_eq)
    qed
    from S1 [OF ei nz] have b1: "0 \<le> best1" "eligible now b' (nat best1)"
      and ge1: "pri (t_os b' ! i) \<le> pri (t_os b' ! nat best1)"
      by blast+
    from top b1(2) ge1 have eq1: "pri (t_os b' ! nat best1) = pri (t_os b' ! i)"
      by (simp add: order_antisym)
    have "nat best1 \<le> k" if "eligible now b' k" "pri (t_os b' ! k) = pri (t_os b' ! i)" for k
      using S1 [OF that(1)] that(2) eq1 nz by simp
    with b1 eq1 show ?thesis
      by blast
  qed
  have none: "best1 = - 1" if z: "pri (t_os b' ! i) = 0"
  proof (rule scan1_selects(2) [OF la s1], intro allI impI)
    fix k
    assume "eligible1 now a' k"
    then have k: "eligible now b' k"
      by (simp add: E)
    with top z have "pri (t_os b' ! k) = 0"
      by simp
    with k show "priority (tasks a' ! k) = 0"
      by (simp add: P)
  qed
  have diff: "best1 \<noteq> best2"
  proof (cases "pri (t_os b' ! i) = 0")
    case True
    with none b2(1) show ?thesis by simp
  next
    case False
    from first [OF False] ei ej tie have "nat best1 \<le> i" "nat best1 \<le> j"
      by simp_all
    moreover from last ei ej tie have "i \<le> nat best2" "j \<le> nat best2"
      by simp_all
    ultimately have "nat best1 < nat best2"
      using ij by linarith
    then show ?thesis by auto
  qed
  from diff E b2 eq2 last first none show ?thesis
    by blast
qed

theorem variants_differ_on_ties_witness:
  "same_tasks tied_tasks1 tied_tasks
   \<and> scan1 5 tied_tasks1 = (tied_tasks1, 0, 2) \<and> scan 5 tied_tasks = (tied_tasks, 1, 2)
   \<and> eligible 5 tied_tasks 0 \<and> eligible 5 tied_tasks 1
   \<and> pri (t_os tied_tasks ! 0) = pri (t_os tied_tasks ! 1)
   \<and> (0 :: int) \<noteq> 1 \<and> eligible 5 tied_tasks (nat 1) \<and> eligible 5 tied_tasks (nat 0)"
proof -
  have h: "same_tasks tied_tasks1 tied_tasks"
    "scan1 5 tied_tasks1 = (tied_tasks1, 0, 2)" "scan 5 tied_tasks = (tied_tasks, 1, 2)"
    "eligible 5 tied_tasks 0" "eligible 5 tied_tasks 1" "(0 :: nat) \<noteq> 1"
    "pri (t_os tied_tasks ! 0) = pri (t_os tied_tasks ! 1)"
    by code_simp+
  have nz: "pri (t_os tied_tasks ! 0) \<noteq> 0"
    by code_simp
  have top: "\<forall>k. eligible 5 tied_tasks k \<longrightarrow> pri (t_os tied_tasks ! k) \<le> pri (t_os tied_tasks ! 0)"
  proof (intro allI impI)
    fix k
    assume "eligible 5 tied_tasks k"
    then have "k < unat (n_os tied_tasks)"
      by (simp add: eligible_def)
    moreover have "unat (n_os tied_tasks) = 3"
      by code_simp
    ultimately have "k = 0 \<or> k = 1 \<or> k = 2"
      by auto
    moreover have "pri (t_os tied_tasks ! 0) \<le> pri (t_os tied_tasks ! 0)"
      "pri (t_os tied_tasks ! 1) \<le> pri (t_os tied_tasks ! 0)"
      "pri (t_os tied_tasks ! 2) \<le> pri (t_os tied_tasks ! 0)"
      by code_simp+
    ultimately show "pri (t_os tied_tasks ! k) \<le> pri (t_os tied_tasks ! 0)"
      by auto
  qed
  from variants_differ_on_ties [OF h top] nz h show ?thesis
    by blast
qed

subsection \<open>Mailboxes\<close>

text \<open>
  C5. \<^verbatim>\<open>sendMessage\<close> returns \<open>-1\<close> (``invalid parameters'', the code's one value for
  both InvalidTaskId and InvalidPayloadSize) when the target id is not below \<^verbatim>\<open>n\<close> and
  when the size exceeds 8, and \<open>-2\<close> (``message queue full'') when the parameters are
  valid and the mailbox of the target holds a pending message. Whenever the returned
  value is not 0 the whole kernel state, and with it the mailbox of the target, is what
  it was; a pending message is never overwritten. A nonzero value is returned in these
  three cases only.
\<close>

theorem sendMessage_failures:
  "(n_os os \<le> taskId \<longrightarrow> sendMessage taskId ty data sz os = (- 1, os))
   \<and> (8 < sz \<longrightarrow> sendMessage taskId ty data sz os = (- 1, os))
   \<and> (taskId < n_os os \<and> sz \<le> 8 \<and> pending (message (t_os os ! unat taskId)) \<longrightarrow>
        sendMessage taskId ty data sz os = (- 2, os))
   \<and> (pending (message (t_os os ! unat taskId)) \<longrightarrow>
        fst (sendMessage taskId ty data sz os) \<noteq> 0 \<and> snd (sendMessage taskId ty data sz os) = os)
   \<and> (fst (sendMessage taskId ty data sz os) \<noteq> 0 \<longrightarrow>
        snd (sendMessage taskId ty data sz os) = os
        \<and> (n_os os \<le> taskId \<or> 8 < sz \<or> pending (message (t_os os ! unat taskId))))"
  by (auto simp add: sendMessage_def Let_def)

theorem sendMessage_failures_witness:
  "pending (message (t_os mailbox_demo ! unat (0 :: u8)))
   \<and> sendMessage 0 9 [4, 5] 2 mailbox_demo = (- 2, mailbox_demo)
   \<and> sendMessage 3 9 [4, 5] 2 mailbox_demo = (- 1, mailbox_demo)
   \<and> sendMessage 1 9 [4, 5, 6, 7, 8, 9, 10, 11, 12] 9 mailbox_demo = (- 1, mailbox_demo)
   \<and> msg_data (message (t_os (snd (sendMessage 0 9 [4, 5] 2 mailbox_demo)) ! 0))
        = [1, 2, 3, 0, 0, 0, 0, 0]"
proof -
  have h: "pending (message (t_os mailbox_demo ! unat (0 :: u8)))"
    "(0 :: u8) < n_os mailbox_demo" "(2 :: u8) \<le> 8" "n_os mailbox_demo \<le> 3" "(8 :: u8) < 9"
    by code_simp+
  have d: "msg_data (message (t_os mailbox_demo ! 0)) = [1, 2, 3, 0, 0, 0, 0, 0]"
    by code_simp
  from sendMessage_failures [of mailbox_demo 0 9 "[4, 5]" 2] h
  have 1: "sendMessage 0 9 [4, 5] 2 mailbox_demo = (- 2, mailbox_demo)"
    by blast
  from sendMessage_failures [of mailbox_demo 3 9 "[4, 5]" 2] h
  have 2: "sendMessage 3 9 [4, 5] 2 mailbox_demo = (- 1, mailbox_demo)"
    by blast
  from sendMessage_failures [of mailbox_demo 1 9 "[4, 5, 6, 7, 8, 9, 10, 11, 12]" 9] h
  have 3: "sendMessage 1 9 [4, 5, 6, 7, 8, 9, 10, 11, 12] 9 mailbox_demo = (- 1, mailbox_demo)"
    by blast
  from h(1) 1 2 3 d show ?thesis
    by simp
qed

lemma memcpy_length: "k \<le> length src \<Longrightarrow> k \<le> length dst \<Longrightarrow> length (memcpy dst src k) = length dst"
  by (simp add: memcpy_def)

lemma memcpy_nth_lt: "k \<le> length src \<Longrightarrow> j < k \<Longrightarrow> memcpy dst src k ! j = src ! j"
  by (simp add: memcpy_def nth_append)

lemma memcpy_nth_ge:
  "k \<le> length src \<Longrightarrow> k \<le> j \<Longrightarrow> j < length dst \<Longrightarrow> memcpy dst src k ! j = dst ! j"
  by (simp add: memcpy_def nth_append min_absorb2)

text \<open>
  C6. \<^verbatim>\<open>receiveMessage\<close> reads the mailbox of the current task. With no message pending
  it returns 0 and changes neither the out-parameters nor the state. With a message of
  stored size \<open>s\<close> pending it returns \<open>k = min maxSize s\<close>, stores the type tag, replaces
  the first \<open>k\<close> bytes of the caller's buffer by the first \<open>k\<close> bytes of the payload and
  leaves the rest of the buffer alone, and clears the pending flag and nothing else; a
  receive right after it returns 0.
\<close>

theorem receiveMessage_contract:
  "(\<not> pending (message (t_os os ! unat (cur os))) \<longrightarrow>
       receiveMessage ty buf maxSize os = (0, ty, buf, os))
   \<and> (unat (cur os) < length (t_os os) \<and> pending (message (t_os os ! unat (cur os))) \<longrightarrow>
       (let m = message (t_os os ! unat (cur os));
            k = min (unat maxSize) (unat (msg_size m));
            os' = os\<lparr>t_os := (t_os os)[unat (cur os) :=
                    (t_os os ! unat (cur os))\<lparr>message := m\<lparr>pending := False\<rparr>\<rparr>]\<rparr>
        in receiveMessage ty buf maxSize os
             = (int k, msg_type m, take k (msg_data m) @ drop k buf, os')
           \<and> \<not> pending (message (t_os os' ! unat (cur os')))
           \<and> receiveMessage ty2 buf2 maxSize2 os' = (0, ty2, buf2, os')
           \<and> (k \<le> length buf \<and> k \<le> length (msg_data m) \<longrightarrow>
                length (take k (msg_data m) @ drop k buf) = length buf
                \<and> (\<forall>j<k. (take k (msg_data m) @ drop k buf) ! j = msg_data m ! j)
                \<and> (\<forall>j. k \<le> j \<and> j < length buf \<longrightarrow>
                      (take k (msg_data m) @ drop k buf) ! j = buf ! j))))"
proof -
  let ?c = "unat (cur os)"
  let ?m = "message (t_os os ! ?c)"
  let ?k = "min (unat maxSize) (unat (msg_size ?m))"
  let ?os' = "os\<lparr>t_os := (t_os os)[?c := (t_os os ! ?c)\<lparr>message := ?m\<lparr>pending := False\<rparr>\<rparr>]\<rparr>"
  let ?out = "take ?k (msg_data ?m) @ drop ?k buf"
  have A: "receiveMessage ty buf maxSize os = (0, ty, buf, os)" if "\<not> pending ?m"
    using that by (simp add: receiveMessage_def Let_def)
  have uk: "unat (min maxSize (msg_size ?m)) = ?k"
    by (simp add: min_def word_le_nat_alt)
  have ui: "uint (min maxSize (msg_size ?m)) = int ?k"
    using uk by (simp add: uint_nat)
  have B: "receiveMessage ty buf maxSize os = (int ?k, msg_type ?m, ?out, ?os')" if "pending ?m"
    using that by (simp add: receiveMessage_def Let_def memcpy_def uk ui)
  have C: "\<not> pending (message (t_os ?os' ! unat (cur ?os')))" if "?c < length (t_os os)"
    using that by simp
  have D: "receiveMessage ty2 buf2 maxSize2 ?os' = (0, ty2, buf2, ?os')" if "?c < length (t_os os)"
    using that by (simp add: receiveMessage_def Let_def)
  have E1: "length ?out = length buf" if "?k \<le> length buf" "?k \<le> length (msg_data ?m)"
    using memcpy_length [OF that(2) that(1)] by (simp only: memcpy_def)
  have E2: "?out ! j = msg_data ?m ! j" if "?k \<le> length (msg_data ?m)" "j < ?k" for j
    using memcpy_nth_lt [OF that, of buf] by (simp only: memcpy_def)
  have E3: "?out ! j = buf ! j"
    if "?k \<le> length (msg_data ?m)" "?k \<le> j" "j < length buf" for j
    using memcpy_nth_ge [OF that] by (simp only: memcpy_def)
  from A B C D E1 E2 E3 show ?thesis
    unfolding Let_def by blast
qed

theorem receiveMessage_contract_witness:
  "unat (cur mailbox_demo) < length (t_os mailbox_demo)
   \<and> pending (message (t_os mailbox_demo ! unat (cur mailbox_demo)))
   \<and> fst (receiveMessage 0 [9, 9, 9, 9] 2 mailbox_demo) = 2
   \<and> fst (snd (receiveMessage 0 [9, 9, 9, 9] 2 mailbox_demo)) = 7
   \<and> fst (snd (snd (receiveMessage 0 [9, 9, 9, 9] 2 mailbox_demo))) = [1, 2, 9, 9]
   \<and> fst (receiveMessage 0 [9, 9, 9, 9] 2
            (snd (snd (snd (receiveMessage 0 [9, 9, 9, 9] 2 mailbox_demo))))) = 0"
proof -
  have h: "unat (cur mailbox_demo) < length (t_os mailbox_demo)"
    "pending (message (t_os mailbox_demo ! unat (cur mailbox_demo)))"
    by code_simp+
  have v: "min (unat (2 :: u8)) (unat (msg_size (message (t_os mailbox_demo ! unat (cur mailbox_demo))))) = 2"
    "msg_type (message (t_os mailbox_demo ! unat (cur mailbox_demo))) = 7"
    "take 2 (msg_data (message (t_os mailbox_demo ! unat (cur mailbox_demo)))) @ drop 2 [9, 9, 9, 9] = [1, 2, 9, 9 :: u8]"
    by code_simp+
  note L = receiveMessage_contract [of mailbox_demo 0 "[9, 9, 9, 9]" 2 0 "[9, 9, 9, 9]" 2,
      THEN conjunct2, THEN mp, OF conjI [OF h], unfolded Let_def]
  note e1 = L [THEN conjunct1, unfolded v]
  note e3 = L [THEN conjunct2, THEN conjunct2, THEN conjunct1]
  have r: "fst (receiveMessage 0 [9, 9, 9, 9] 2 mailbox_demo) = 2"
    "fst (snd (receiveMessage 0 [9, 9, 9, 9] 2 mailbox_demo)) = 7"
    "fst (snd (snd (receiveMessage 0 [9, 9, 9, 9] 2 mailbox_demo))) = [1, 2, 9, 9]"
    by (simp_all add: e1)
  have r': "fst (receiveMessage 0 [9, 9, 9, 9] 2
            (snd (snd (snd (receiveMessage 0 [9, 9, 9, 9] 2 mailbox_demo))))) = 0"
    by (simp only: e1 e3 fst_conv snd_conv)
  from h r r' show ?thesis
    by blast
qed

subsection \<open>Sleep, suspend and resume\<close>

lemma flag_test: "suspended w i = bit w i"
  by (simp add: suspended_def bit_iff_and_push_bit_not_eq_0)

lemma flag_set: "i < 8 \<Longrightarrow> suspended (w OR push_bit i 1) j = (suspended w j \<or> j = i)"
  by (auto simp add: flag_test bit_simps)

lemma flag_clear: "suspended (w AND NOT (push_bit i 1)) j = (suspended w j \<and> j \<noteq> i)"
  by (auto simp add: flag_test bit_simps dest: bit_imp_le_length)

lemma scan_best_candidate:
  assumes len: "unat (n_os os) \<le> length (t_os os)"
    and sc: "scan now os = (os', best, m)"
  shows "best = - 1 \<or> (0 \<le> best \<and> nat best < unat (n_os os) \<and> candidate now os (nat best) = Some m)"
proof -
  from sc len have f: "fold (pick_last (candidate now os)) [0..<unat (n_os os)] (- 1, 0) = (best, m)"
    by (simp add: scan_def scan_fold)
  from pick_last_fold [OF f] show ?thesis
    by blast
qed

lemma scan_skips:
  assumes len: "unat (n_os os) \<le> length (t_os os)"
    and none: "candidate now os i = None"
  shows "fst (snd (scan now os)) \<noteq> int i"
proof -
  obtain os' best m where sc: "scan now os = (os', best, m)"
    by (cases "scan now os")
  from scan_best_candidate [OF len sc] none show ?thesis
    unfolding sc by auto
qed

lemma scan_state:
  assumes len: "unat (n_os os) \<le> length (t_os os)"
  shows "fst (scan now os) = woken now (unat (n_os os)) os"
  using len by (simp add: scan_def scan_fold)

lemma scan_keeps_fields [simp]:
  assumes len: "unat (n_os os) \<le> length (t_os os)"
  shows "n_os (fst (scan now os)) = n_os os"
    and "suspendFlags (fst (scan now os)) = suspendFlags os"
    and "length (t_os (fst (scan now os))) = length (t_os os)"
    and "cur (fst (scan now os)) = cur os"
  by (simp_all add: scan_state [OF len])

lemma scan_nth:
  assumes len: "unat (n_os os) \<le> length (t_os os)" and i: "i < unat (n_os os)"
  shows "t_os (fst (scan now os)) ! i
     = (if suspended (suspendFlags os) i then t_os os ! i else wake now (t_os os ! i))"
  using len i by (simp add: scan_state [OF len] woken_nth)

lemma sleeping_not_selected:
  assumes sl: "sleeping i w s" and early: "now < w \<or> suspended (suspendFlags s) i"
  shows "fst (snd (scan now s)) \<noteq> int i" and "sleeping i w (fst (scan now s))"
proof -
  from sl have i: "i < unat (n_os s)" and len: "unat (n_os s) \<le> length (t_os s)"
    and st: "state (t_os s ! i) = T_WAIT" and w: "sleepUntil (t_os s ! i) = w"
    by (simp_all add: sleeping_def)
  have "candidate now s i = None"
    using early st w by (auto simp add: candidate_def wake_def)
  then show "fst (snd (scan now s)) \<noteq> int i"
    by (rule scan_skips [OF len])
  have "t_os (fst (scan now s)) ! i = t_os s ! i"
    using early st w by (auto simp add: scan_nth [OF len i] wake_def)
  then show "sleeping i w (fst (scan now s))"
    using sl len by (simp add: sleeping_def)
qed

lemma sleeping_wakes:
  assumes sl: "sleeping i w s" and late: "w \<le> now" and ns: "\<not> suspended (suspendFlags s) i"
  shows "state (t_os (fst (scan now s)) ! i) = T_READY"
    and "sleepUntil (t_os (fst (scan now s)) ! i) = 0"
    and "eligible now (fst (scan now s)) i = due now (t_os s ! i)"
proof -
  from sl have i: "i < unat (n_os s)" and len: "unat (n_os s) \<le> length (t_os s)"
    and st: "state (t_os s ! i) = T_WAIT" and w: "sleepUntil (t_os s ! i) = w"
    by (simp_all add: sleeping_def)
  have x: "t_os (fst (scan now s)) ! i = (t_os s ! i)\<lparr>state := T_READY, sleepUntil := 0\<rparr>"
    using late ns st w by (simp add: scan_nth [OF len i] wake_def)
  show "state (t_os (fst (scan now s)) ! i) = T_READY"
    and "sleepUntil (t_os (fst (scan now s)) ! i) = 0"
    by (simp_all add: x)
  show "eligible now (fst (scan now s)) i = due now (t_os s ! i)"
    using i ns len by (simp add: eligible_def x due_def)
qed




lemma sleeping_cur [simp]: "sleeping i w (s\<lparr>cur := c\<rparr>) = sleeping i w s"
  by (simp add: sleeping_def)

lemma sleeping_ctxSw [simp]: "sleeping i w (s\<lparr>ctxSw := c\<rparr>) = sleeping i w s"
  by (simp add: sleeping_def)










text \<open>
  C8 does not hold of the code; the iterations below show it. The period test subtracts
  the 16-bit field \<^verbatim>\<open>last\<close>, which holds the low half of the time of the last dispatch,
  from the 32-bit clock: a task of period 1000 dispatched at time 70000 is due, and
  selected, at time 70001. The sleep test compares the clock with the wake-time as
  plain unsigned numbers: a task that sleeps 100 ms at \<open>2^32 - 10\<close> is woken and selected
  one millisecond later, and a task that sleeps 100 ms at \<open>2^32 - 256\<close> is still waiting
  in an iteration at time 5, 261 ms later.
\<close>

theorem time_tests_not_wrap_safe:
  "last_t (t_os (run_iter (\<lambda>f os. os) 70000 (one_task 1000)) ! 0) = 4464
   \<and> state (t_os (run_iter (\<lambda>f os. os) 70000 (one_task 1000)) ! 0) = T_READY
   \<and> due 70001 (t_os (run_iter (\<lambda>f os. os) 70000 (one_task 1000)) ! 0)
   \<and> fst (snd (scan 70001 (run_iter (\<lambda>f os. os) 70000 (one_task 1000)))) = 0
   \<and> sleepUntil (t_os (run_iter (\<lambda>f. sleep 4294967286 100) 4294967286 (one_task 0)) ! 0) = 90
   \<and> state (t_os (fst (scan 4294967287
        (run_iter (\<lambda>f. sleep 4294967286 100) 4294967286 (one_task 0)))) ! 0) = T_READY
   \<and> fst (snd (scan 4294967287
        (run_iter (\<lambda>f. sleep 4294967286 100) 4294967286 (one_task 0)))) = 0
   \<and> sleepUntil (t_os (run_iter (\<lambda>f. sleep 4294967040 100) 4294967040 (one_task 0)) ! 0)
        = 4294967140
   \<and> state (t_os (fst (scan 5
        (run_iter (\<lambda>f. sleep 4294967040 100) 4294967040 (one_task 0)))) ! 0) = T_WAIT
   \<and> fst (snd (scan 5
        (run_iter (\<lambda>f. sleep 4294967040 100) 4294967040 (one_task 0)))) = - 1"
proof -
  have c0: "last_t (t_os (run_iter (\<lambda>f os. os) 70000 (one_task 1000)) ! 0) = 4464"
    by code_simp
  have c1: "state (t_os (run_iter (\<lambda>f os. os) 70000 (one_task 1000)) ! 0) = T_READY"
    by code_simp
  have c2: "due 70001 (t_os (run_iter (\<lambda>f os. os) 70000 (one_task 1000)) ! 0)"
    by code_simp
  have c3: "fst (snd (scan 70001 (run_iter (\<lambda>f os. os) 70000 (one_task 1000)))) = 0"
    by code_simp
  have c4: "sleepUntil (t_os (run_iter (\<lambda>f. sleep 4294967286 100) 4294967286 (one_task 0)) ! 0) = 90"
    by code_simp
  have c5: "state (t_os (fst (scan 4294967287 (run_iter (\<lambda>f. sleep 4294967286 100) 4294967286 (one_task 0)))) ! 0) = T_READY"
    by code_simp
  have c6: "fst (snd (scan 4294967287 (run_iter (\<lambda>f. sleep 4294967286 100) 4294967286 (one_task 0)))) = 0"
    by code_simp
  have c7: "sleepUntil (t_os (run_iter (\<lambda>f. sleep 4294967040 100) 4294967040 (one_task 0)) ! 0) = 4294967140"
    by code_simp
  have c8: "state (t_os (fst (scan 5 (run_iter (\<lambda>f. sleep 4294967040 100) 4294967040 (one_task 0)))) ! 0) = T_WAIT"
    by code_simp
  have c9: "fst (snd (scan 5 (run_iter (\<lambda>f. sleep 4294967040 100) 4294967040 (one_task 0)))) = - 1"
    by code_simp
  show ?thesis
    by (intro conjI) (rule c0 c1 c2 c3 c4 c5 c6 c7 c8 c9)+
qed

lemma suspendTask_waiting:
  assumes k: "k < n_os os" and w: "state (t_os os ! unat k) = T_WAIT"
  shows "suspendTask k os = (0, os\<lparr>suspendFlags := suspendFlags os OR push_bit (unat k) 1\<rparr>)"
  using assms by (simp add: suspendTask_def Let_def)

lemma resumeTask_flags:
  assumes k: "k < n_os os"
  shows "fst (resumeTask k os) = 0"
    and "suspendFlags (snd (resumeTask k os)) = suspendFlags os AND NOT (push_bit (unat k) 1)"
    and "n_os (snd (resumeTask k os)) = n_os os"
  using assms by (simp_all add: resumeTask_def Let_def)

lemma resumeTask_suspended:
  assumes k: "k < n_os os" and len: "unat k < length (t_os os)"
    and st: "state (t_os os ! unat k) = T_SUSPENDED"
  shows "t_os (snd (resumeTask k os))
           = (t_os os)[unat k := (t_os os ! unat k)\<lparr>state := T_READY\<rparr>]"
    and "state (t_os (snd (resumeTask k os)) ! unat k) = T_READY"
  using assms by (simp_all add: resumeTask_def Let_def)

lemma resumeTask_other:
  assumes k: "k < n_os os" and st: "state (t_os os ! unat k) \<noteq> T_SUSPENDED"
  shows "snd (resumeTask k os)
           = os\<lparr>suspendFlags := suspendFlags os AND NOT (push_bit (unat k) 1)\<rparr>"
  using assms by (simp add: resumeTask_def Let_def)

text \<open>
  C7. For a registered task \<open>k\<close> that is waiting, \<^verbatim>\<open>suspendTask(k)\<close> returns 0 and changes
  the suspend mask only: the bit of \<open>k\<close> is set, state and wake-time stay. While the bit
  is set no iteration selects the task or touches its descriptor. \<^verbatim>\<open>resumeTask(k)\<close> then
  returns 0 and clears the bit only; after it no iteration at a time before the
  wake-time selects the task, and an iteration at a time from the wake-time on makes
  it \<open>READY\<close>. For any registered task, \<^verbatim>\<open>resumeTask\<close> clears the bit, makes a \<open>SUSPENDED\<close>
  task \<open>READY\<close>, and changes nothing but the mask otherwise.
\<close>

theorem suspend_resume_waiting:
  "(k < n_os os \<and> unat (n_os os) \<le> length (t_os os) \<and> length (t_os os) = MAX_TASKS
      \<and> state (t_os os ! unat k) = T_WAIT \<longrightarrow>
      (let i = unat k;
           w = sleepUntil (t_os os ! i);
           s = os\<lparr>suspendFlags := suspendFlags os OR push_bit i 1\<rparr>;
           r = os\<lparr>suspendFlags := (suspendFlags os OR push_bit i 1) AND NOT (push_bit i 1)\<rparr>
       in suspendTask k os = (0, s) \<and> suspended (suspendFlags s) i
          \<and> state (t_os s ! i) = T_WAIT \<and> sleepUntil (t_os s ! i) = w
          \<and> (\<forall>now. fst (snd (scan now s)) \<noteq> int i \<and> sleeping i w (fst (scan now s)))
          \<and> resumeTask k s = (0, r) \<and> \<not> suspended (suspendFlags r) i
          \<and> state (t_os r ! i) = T_WAIT \<and> sleepUntil (t_os r ! i) = w
          \<and> (\<forall>now. now < w \<longrightarrow>
                fst (snd (scan now r)) \<noteq> int i \<and> sleeping i w (fst (scan now r)))
          \<and> (\<forall>now. w \<le> now \<longrightarrow> state (t_os (fst (scan now r)) ! i) = T_READY)))
   \<and> (k < n_os os \<and> unat k < length (t_os os) \<longrightarrow>
        fst (resumeTask k os) = 0
        \<and> suspendFlags (snd (resumeTask k os)) = suspendFlags os AND NOT (push_bit (unat k) 1)
        \<and> (state (t_os os ! unat k) = T_SUSPENDED \<longrightarrow>
             state (t_os (snd (resumeTask k os)) ! unat k) = T_READY)
        \<and> (state (t_os os ! unat k) \<noteq> T_SUSPENDED \<longrightarrow>
             snd (resumeTask k os)
               = os\<lparr>suspendFlags := suspendFlags os AND NOT (push_bit (unat k) 1)\<rparr>))"
proof -
  let ?i = "unat k"
  let ?w = "sleepUntil (t_os os ! ?i)"
  let ?s = "os\<lparr>suspendFlags := suspendFlags os OR push_bit ?i 1\<rparr>"
  let ?r = "os\<lparr>suspendFlags := (suspendFlags os OR push_bit ?i 1) AND NOT (push_bit ?i 1)\<rparr>"
  have A: "suspendTask k os = (0, ?s) \<and> suspended (suspendFlags ?s) ?i
          \<and> state (t_os ?s ! ?i) = T_WAIT \<and> sleepUntil (t_os ?s ! ?i) = ?w
          \<and> (\<forall>now. fst (snd (scan now ?s)) \<noteq> int ?i \<and> sleeping ?i ?w (fst (scan now ?s)))
          \<and> resumeTask k ?s = (0, ?r) \<and> \<not> suspended (suspendFlags ?r) ?i
          \<and> state (t_os ?r ! ?i) = T_WAIT \<and> sleepUntil (t_os ?r ! ?i) = ?w
          \<and> (\<forall>now. now < ?w \<longrightarrow>
                fst (snd (scan now ?r)) \<noteq> int ?i \<and> sleeping ?i ?w (fst (scan now ?r)))
          \<and> (\<forall>now. ?w \<le> now \<longrightarrow> state (t_os (fst (scan now ?r)) ! ?i) = T_READY)"
    if k: "k < n_os os" and len: "unat (n_os os) \<le> length (t_os os)"
      and cap: "length (t_os os) = MAX_TASKS" and w: "state (t_os os ! ?i) = T_WAIT"
  proof -
    from k have i: "?i < unat (n_os os)"
      by (simp add: word_less_nat_alt)
    with len cap have i8: "?i < 8"
      by (simp add: MAX_TASKS_def)
    have 1: "suspendTask k os = (0, ?s)"
      using k w by (rule suspendTask_waiting)
    have 2: "suspended (suspendFlags ?s) ?i"
      using flag_set [OF i8, of "suspendFlags os" ?i] by simp
    have sl: "sleeping ?i ?w ?s"
      using i len w by (simp add: sleeping_def)
    have 3: "fst (snd (scan now ?s)) \<noteq> int ?i \<and> sleeping ?i ?w (fst (scan now ?s))" for now
      using sleeping_not_selected [OF sl, of now] 2 by blast
    have ks: "k < n_os ?s" and ws: "state (t_os ?s ! ?i) \<noteq> T_SUSPENDED"
      using k w by simp_all
    have 4: "resumeTask k ?s = (0, ?r)"
      using resumeTask_flags(1) [OF ks] resumeTask_other [OF ks ws]
      by (simp add: prod_eq_iff)
    have 5: "\<not> suspended (suspendFlags ?r) ?i"
      using flag_clear [of "suspendFlags os OR push_bit ?i 1" ?i ?i] by simp
    have sr: "sleeping ?i ?w ?r"
      using i len w by (simp add: sleeping_def)
    have 6: "fst (snd (scan now ?r)) \<noteq> int ?i \<and> sleeping ?i ?w (fst (scan now ?r))"
      if "now < ?w" for now
      using sleeping_not_selected [OF sr, of now] that by blast
    have 7: "state (t_os (fst (scan now ?r)) ! ?i) = T_READY" if "?w \<le> now" for now
      using sleeping_wakes(1) [OF sr that 5] .
    from 1 2 3 4 5 6 7 w show ?thesis
      by simp
  qed
  have B: "fst (resumeTask k os) = 0
        \<and> suspendFlags (snd (resumeTask k os)) = suspendFlags os AND NOT (push_bit ?i 1)
        \<and> (state (t_os os ! ?i) = T_SUSPENDED \<longrightarrow>
             state (t_os (snd (resumeTask k os)) ! ?i) = T_READY)
        \<and> (state (t_os os ! ?i) \<noteq> T_SUSPENDED \<longrightarrow>
             snd (resumeTask k os) = os\<lparr>suspendFlags := suspendFlags os AND NOT (push_bit ?i 1)\<rparr>)"
    if k: "k < n_os os" and len: "?i < length (t_os os)"
    using resumeTask_flags [OF k] resumeTask_suspended(2) [OF k len] resumeTask_other [OF k]
    by blast
  from A B show ?thesis
    unfolding Let_def by blast
qed

theorem suspend_resume_waiting_witness:
  "(0 :: u8) < n_os waiting_demo \<and> state (t_os waiting_demo ! unat (0 :: u8)) = T_WAIT
   \<and> fst (suspendTask 0 waiting_demo) = 0
   \<and> sleepUntil (t_os (snd (suspendTask 0 waiting_demo)) ! 0) = 1100
   \<and> fst (snd (scan 2000 (snd (suspendTask 0 waiting_demo)))) \<noteq> 0
   \<and> fst (resumeTask 0 (snd (suspendTask 0 waiting_demo))) = 0
   \<and> fst (snd (scan 1099 (snd (resumeTask 0 (snd (suspendTask 0 waiting_demo)))))) \<noteq> 0
   \<and> state (t_os (fst (scan 1100 (snd (resumeTask 0 (snd (suspendTask 0 waiting_demo)))))) ! 0)
        = T_READY"
proof -
  let ?S = "waiting_demo\<lparr>suspendFlags := suspendFlags waiting_demo OR push_bit (unat (0 :: u8)) 1\<rparr>"
  let ?R = "waiting_demo\<lparr>suspendFlags :=
      (suspendFlags waiting_demo OR push_bit (unat (0 :: u8)) 1) AND NOT (push_bit (unat (0 :: u8)) 1)\<rparr>"
  let ?w = "sleepUntil (t_os waiting_demo ! unat (0 :: u8))"
  have h: "(0 :: u8) < n_os waiting_demo \<and> unat (n_os waiting_demo) \<le> length (t_os waiting_demo)
      \<and> length (t_os waiting_demo) = MAX_TASKS \<and> state (t_os waiting_demo ! unat (0 :: u8)) = T_WAIT"
    by code_simp
  have w: "?w = 1100"
    by code_simp
  have lt: "(1099 :: u32) < 1100" and le: "(1100 :: u32) \<le> 1100"
    by simp_all
  note L = suspend_resume_waiting [of 0 waiting_demo, THEN conjunct1, THEN mp, OF h,
      unfolded Let_def]
  note a = L [THEN conjunct1]
  note L4 = L [THEN conjunct2, THEN conjunct2, THEN conjunct2]
  note b = L4 [THEN conjunct1]
  note c = L4 [THEN conjunct2, THEN conjunct1]
  note L6 = L4 [THEN conjunct2, THEN conjunct2]
  note d = L6 [THEN conjunct1]
  note L10 = L6 [THEN conjunct2, THEN conjunct2, THEN conjunct2, THEN conjunct2]
  note e = L10 [THEN conjunct1]
  note f = L10 [THEN conjunct2]
  have 1: "fst (suspendTask 0 waiting_demo) = 0" and s: "snd (suspendTask 0 waiting_demo) = ?S"
    by (simp_all only: a fst_conv snd_conv)
  have 2: "fst (resumeTask 0 ?S) = 0" and r: "snd (resumeTask 0 ?S) = ?R"
    by (simp_all only: d fst_conv snd_conv)
  have 3: "sleepUntil (t_os ?S ! 0) = 1100"
    using b w by (simp only: unat_0)
  have 4: "fst (snd (scan 2000 ?S)) \<noteq> 0"
    using c [THEN spec, of 2000, THEN conjunct1] by (simp only: unat_0 of_nat_0)
  have 5: "fst (snd (scan 1099 ?R)) \<noteq> 0"
    using e [THEN spec, of 1099, THEN mp, unfolded w, OF lt, THEN conjunct1]
    by (simp only: unat_0 of_nat_0)
  have 6: "state (t_os (fst (scan 1100 ?R)) ! 0) = T_READY"
    using f [THEN spec, of 1100, THEN mp, unfolded w, OF le] by (simp only: unat_0)
  note h1 = h [THEN conjunct1]
  note h2 = h [THEN conjunct2, THEN conjunct2, THEN conjunct2]
  show ?thesis
    unfolding s r by (intro conjI) (rule h1 h2 1 2 3 4 5 6)+
qed

end
